theory Spec2Isabelle
  imports Complex_Main "HOL-Library.Word"
begin

section \<open>JavaScript strings\<close>

text \<open>
  A JavaScript string is a sequence of UTF-16 code units; \<open>length\<close> counts code units, as
  \<open>String.prototype.length\<close> does. ASCII literals of the source are written with \<open>js\<close>,
  the Japanese literals as their code units.
\<close>

type_synonym jsstring = "16 word list"

definition js :: "string \<Rightarrow> jsstring" where
  "js s = map of_char s"

definition LF :: "16 word" where
  "LF = 0x0A"

definition SP :: "16 word" where
  "SP = 0x20"

text \<open>The ECMAScript productions LineTerminator and WhiteSpace; both make up \<open>\s\<close> and
  what \<open>trim()\<close> removes.\<close>

definition is_line_terminator :: "16 word \<Rightarrow> bool" where
  "is_line_terminator c = (c = 0x0A \<or> c = 0x0D \<or> c = 0x2028 \<or> c = 0x2029)"

definition is_white_space :: "16 word \<Rightarrow> bool" where
  "is_white_space c =
     (c = 0x09 \<or> c = 0x0B \<or> c = 0x0C \<or> c = 0x20 \<or> c = 0xA0 \<or> c = 0x1680 \<or>
      (0x2000 \<le> c \<and> c \<le> 0x200A) \<or> c = 0x202F \<or> c = 0x205F \<or> c = 0x3000 \<or>
      c = 0xFEFF)"

definition is_space :: "16 word \<Rightarrow> bool" where
  "is_space c = (is_white_space c \<or> is_line_terminator c)"

definition trim :: "jsstring \<Rightarrow> jsstring" where
  "trim s = rev (dropWhile is_space (rev (dropWhile is_space s)))"

text \<open>\<open>trimEnd\<close>: the string without its trailing white space.\<close>

definition trimEnd :: "jsstring \<Rightarrow> jsstring" where
  "trimEnd s = rev (dropWhile is_space (rev s))"

text \<open>\<open>Array.prototype.join\<close> on an array of strings.\<close>

fun join :: "jsstring \<Rightarrow> jsstring list \<Rightarrow> jsstring" where
  "join sep [] = []"
| "join sep [x] = x"
| "join sep (x # y # ys) = x @ sep @ join sep (y # ys)"

section \<open>The document\<close>

text \<open>
  One record for every element of the document, holding what the two modules read from an
  element and the two things they write: the class \<open>is-error\<close> and the element's content.
  Attributes read with \<open>getAttribute\<close> and \<open>dataset\<close> entries are \<open>None\<close> when absent
  (\<open>null\<close>, \<open>undefined\<close>). \<open>maxLength\<close> and \<open>pattern\<close> are the DOM properties of that name:
  a \<open>select\<close> has no \<open>maxLength\<close> and only an \<open>input\<close> has \<open>pattern\<close> (\<open>None\<close> is
  \<open>undefined\<close>). A control's \<open>value\<close> is kept apart from its \<open>content\<close>.
  The selectors \<open>[name="..."]\<close> and \<open>[for="..."]\<close> are built by interpolation without
  escaping; the model reads them as selection by equality, which is what they are for a
  name or id that is \<open>css_plain\<close> (below): one that holds no character that ends, breaks or
  escapes inside a quoted CSS string.
\<close>

record element =
  in_form :: bool
  etype :: jsstring
  name_attr :: "jsstring option"
  eid :: jsstring
  for_attr :: "jsstring option"
  evalue :: jsstring
  checked :: bool
  required :: bool
  minlength_attr :: "jsstring option"
  maxlength_attr :: "jsstring option"
  maxLength :: "int option"
  pattern_attr :: "jsstring option"
  pattern :: "jsstring option"
  title :: jsstring
  data_errorMessage :: "jsstring option"
  data_radioGroupError :: "jsstring option"
  data_errorId :: "jsstring option"
  is_error :: bool
  content :: jsstring

text \<open>\<open>in_form e\<close>: the element is an \<open>input\<close>, \<open>textarea\<close> or \<open>select\<close> inside the
  form, that is, one of \<open>form.querySelectorAll('input, textarea, select')\<close>.\<close>

definition ename :: "element \<Rightarrow> jsstring" where
  "ename e = (case name_attr e of None \<Rightarrow> [] | Some n \<Rightarrow> n)"

text \<open>The form's controls, in document order.\<close>

definition form_inputs :: "element list \<Rightarrow> element list" where
  "form_inputs els = filter in_form els"

section \<open>The submission pipeline (\<open>_submitContact.mjs\<close>)\<close>

subsection \<open>\<open>getValues\<close>\<close>

record vals =
  v_type :: jsstring
  v_name :: jsstring
  v_companyName :: jsstring
  v_email :: jsstring
  v_detail :: jsstring
  v_adv :: jsstring

definition label_radio01 :: jsstring where
  "label_radio01 =
     [0x304A, 0x4ED5, 0x4E8B, 0x306E, 0x3054, 0x4F9D, 0x983C, 0x30FB, 0x3054, 0x76F8, 0x8AC7]"

definition label_radio02 :: jsstring where
  "label_radio02 = [0x304A, 0x898B, 0x7A4D, 0x308A, 0x306E, 0x3054, 0x4F9D, 0x983C]"

definition label_radio03 :: jsstring where
  "label_radio03 = [0x63A1, 0x7528, 0x306B, 0x3064, 0x3044, 0x3066]"

definition label_radio04 :: jsstring where
  "label_radio04 = [0x305D, 0x306E, 0x4ED6]"

definition label_search :: jsstring where
  "label_search = js ''Google/Yahoo'' @ [0x691C, 0x7D22]"

definition label_sns :: jsstring where
  "label_sns = js ''SNS''"

definition label_friends :: jsstring where
  "label_friends = [0x53CB, 0x4EBA, 0x3084, 0x77E5, 0x4EBA]"

definition label_blog :: jsstring where
  "label_blog = [0x30D6, 0x30ED, 0x30B0]"

definition label_other :: jsstring where
  "label_other = [0x305D, 0x306E, 0x4ED6]"

definition init_vals :: vals where
  "init_vals = \<lparr>v_type = [], v_name = [], v_companyName = [], v_email = [], v_detail = [],
     v_adv = []\<rparr>"

text \<open>The body of the \<open>forEach\<close> callback: the outer \<open>switch(true)\<close> takes the first case
  whose test holds.\<close>

definition getValues_step :: "vals \<Rightarrow> element \<Rightarrow> vals" where
  "getValues_step v input =
     (if etype input = js ''radio'' then
        (if evalue input = js ''radio01'' then v\<lparr>v_type := label_radio01\<rparr>
         else if evalue input = js ''radio02'' then v\<lparr>v_type := label_radio02\<rparr>
         else if evalue input = js ''radio03'' then v\<lparr>v_type := label_radio03\<rparr>
         else if evalue input = js ''radio04'' then v\<lparr>v_type := label_radio04\<rparr>
         else v)
      else if ename input = js ''name'' then v\<lparr>v_name := evalue input\<rparr>
      else if ename input = js ''companyName'' then v\<lparr>v_companyName := evalue input\<rparr>
      else if ename input = js ''email'' then v\<lparr>v_email := evalue input\<rparr>
      else if ename input = js ''detail'' then v\<lparr>v_detail := evalue input\<rparr>
      else if ename input = js ''adv'' then
        (if evalue input = js ''search'' then v\<lparr>v_adv := label_search\<rparr>
         else if evalue input = js ''sns'' then v\<lparr>v_adv := label_sns\<rparr>
         else if evalue input = js ''friends'' then v\<lparr>v_adv := label_friends\<rparr>
         else if evalue input = js ''blog'' then v\<lparr>v_adv := label_blog\<rparr>
         else if evalue input = js ''other'' then v\<lparr>v_adv := label_other\<rparr>
         else v)
      else v)"

definition getValues :: "element list \<Rightarrow> vals" where
  "getValues els = foldl getValues_step init_vals (form_inputs els)"

subsection \<open>The regular expression \<open>/^\n|\s+$|^ {4}/gm\<close>\<close>

text \<open>
  \<open>ws_eol s\<close> is the length of the match of \<open>\s+$\<close> at the head of \<open>s\<close>, and 0 when there
  is none: \<open>\s+\<close> is greedy and gives characters back until \<open>$\<close> holds, which with the
  flag \<open>m\<close> is at the end of the input or before a line terminator.
\<close>

definition at_eol :: "jsstring \<Rightarrow> bool" where
  "at_eol s = (case s of [] \<Rightarrow> True | c # _ \<Rightarrow> is_line_terminator c)"

fun ws_eol :: "jsstring \<Rightarrow> nat" where
  "ws_eol [] = 0"
| "ws_eol (c # cs) =
     (if is_space c then
        (if 0 < ws_eol cs then Suc (ws_eol cs) else if at_eol cs then 1 else 0)
      else 0)"

text \<open>
  \<open>replace_gm bol s\<close> is \<open>s.replace(/^\n|\s+$|^ {4}/gm, '')\<close> from a position where \<open>^\<close>
  holds iff \<open>bol\<close> (the start of the input, or after a line terminator). At each position
  the alternatives are tried in their order; a match is dropped and the scan goes on
  behind it, otherwise the character is kept.
\<close>

function replace_gm :: "bool \<Rightarrow> jsstring \<Rightarrow> jsstring" where
  "replace_gm bol [] = []"
| "replace_gm bol (c # cs) =
     (if bol \<and> c = LF then replace_gm True cs
      else if 0 < ws_eol (c # cs) then
        replace_gm (is_line_terminator ((c # cs) ! (ws_eol (c # cs) - 1)))
          (drop (ws_eol (c # cs)) (c # cs))
      else if bol \<and> take 4 (c # cs) = replicate 4 SP then
        replace_gm False (drop 4 (c # cs))
      else c # replace_gm (is_line_terminator c) cs)"
  by pat_completeness auto
termination
  by (relation "measure (\<lambda>(bol, s). length s)") auto

declare replace_gm.simps(2) [simp del]

subsection \<open>\<open>fetchValues\<close>\<close>

definition indent :: jsstring where
  "indent = replicate 6 SP"

definition line_heading :: jsstring where
  "line_heading =
     [0x304A, 0x554F, 0x3044, 0x5408, 0x308F, 0x305B, 0x304C, 0x3042, 0x308A, 0x307E, 0x3057,
      0x305F, 0x3002]"

definition line_adv :: jsstring where
  "line_adv =
     js ''PON DESIGN'' @
     [0x3092, 0x3069, 0x3061, 0x3089, 0x3067, 0x304A, 0x77E5, 0x308A, 0x306B, 0x306A, 0x308A,
      0x307E, 0x3057, 0x305F, 0x304B, 0xFF1F, 0xFF1A]"

definition line_type :: jsstring where
  "line_type = [0x304A, 0x554F, 0x5408, 0x305B, 0x7A2E, 0x5225, 0xFF1A]"

definition line_name :: jsstring where
  "line_name = [0x304A, 0x540D, 0x524D, 0xFF1A]"

definition line_company :: jsstring where
  "line_company = [0x4F1A, 0x793E, 0x540D, 0xFF1A]"

definition no_entry :: jsstring where
  "no_entry = [0x8A18, 0x5165, 0x306A, 0x3057]"

definition line_email :: jsstring where
  "line_email = [0x30E1, 0x30FC, 0x30EB, 0x30A2, 0x30C9, 0x30EC, 0x30B9, 0xFF1A]"

definition line_detail :: jsstring where
  "line_detail = [0x3010, 0x304A, 0x554F, 0x5408, 0x305B, 0x5185, 0x5BB9, 0x3011]"

text \<open>The template literal before \<open>replace\<close>: it starts with a line break, and every line
  of it is indented by six spaces in the source.\<close>

definition template :: "vals \<Rightarrow> jsstring" where
  "template v =
     [LF] @ indent @ line_heading @
     [LF] @ indent @ line_adv @ v_adv v @
     [LF] @ indent @ line_type @ v_type v @
     [LF] @ indent @ line_name @ v_name v @
     [LF] @ indent @ line_company @ (if v_companyName v = [] then no_entry else v_companyName v) @
     [LF] @ indent @ line_email @ v_email v @
     [LF] @ indent @ line_detail @
     [LF] @ indent @ v_detail v @
     [LF] @ indent"

definition payload_text :: "vals \<Rightarrow> jsstring" where
  "payload_text v = replace_gm True (template v)"

text \<open>The object \<open>payload\<close>, as its own properties in order.\<close>

definition payload :: "vals \<Rightarrow> (jsstring \<times> jsstring) list" where
  "payload v = [(js ''text'', payload_text v)]"

text \<open>
  \<open>JSON.stringify\<close> of a string (QuoteJSONString): the string is read as code points, so
  a leading surrogate followed by a trailing one stays as it is and a lone surrogate is
  written as an escape.
\<close>

definition hex_digit :: "16 word \<Rightarrow> 16 word" where
  "hex_digit d = (if d < 10 then 0x30 + d else 0x61 + (d - 10))"

definition unicode_escape :: "16 word \<Rightarrow> jsstring" where
  "unicode_escape c =
     [0x5C, 0x75, hex_digit (c div 0x1000 mod 0x10), hex_digit (c div 0x100 mod 0x10),
      hex_digit (c div 0x10 mod 0x10), hex_digit (c mod 0x10)]"

definition is_leading_surrogate :: "16 word \<Rightarrow> bool" where
  "is_leading_surrogate c = (0xD800 \<le> c \<and> c \<le> 0xDBFF)"

definition is_trailing_surrogate :: "16 word \<Rightarrow> bool" where
  "is_trailing_surrogate c = (0xDC00 \<le> c \<and> c \<le> 0xDFFF)"

fun json_chars :: "jsstring \<Rightarrow> jsstring" where
  "json_chars [] = []"
| "json_chars (c # cs) =
     (if c = 0x08 then [0x5C, 0x62] @ json_chars cs
      else if c = 0x09 then [0x5C, 0x74] @ json_chars cs
      else if c = 0x0A then [0x5C, 0x6E] @ json_chars cs
      else if c = 0x0C then [0x5C, 0x66] @ json_chars cs
      else if c = 0x0D then [0x5C, 0x72] @ json_chars cs
      else if c = 0x22 then [0x5C, 0x22] @ json_chars cs
      else if c = 0x5C then [0x5C, 0x5C] @ json_chars cs
      else if c < 0x20 then unicode_escape c @ json_chars cs
      else if is_leading_surrogate c then
        (case cs of
           [] \<Rightarrow> unicode_escape c
         | d # ds \<Rightarrow>
             if is_trailing_surrogate d then c # d # json_chars ds
             else unicode_escape c @ json_chars cs)
      else if is_trailing_surrogate c then unicode_escape c @ json_chars cs
      else c # json_chars cs)"

definition json_string :: "jsstring \<Rightarrow> jsstring" where
  "json_string s = [0x22] @ json_chars s @ [0x22]"

text \<open>\<open>JSON.stringify\<close> of an object whose property values are strings.\<close>

definition JSON_stringify :: "(jsstring \<times> jsstring) list \<Rightarrow> jsstring" where
  "JSON_stringify obj =
     js ''{'' @ join (js '','') (map (\<lambda>(k, v). json_string k @ js '':'' @ json_string v) obj) @
     js ''}''"

record request =
  url :: jsstring
  http_method :: jsstring
  body :: jsstring

definition fetch_request :: "vals \<Rightarrow> request" where
  "fetch_request v =
     \<lparr>url = js ''hogehogehogehoge'', http_method = js ''POST'', body = JSON_stringify (payload v)\<rparr>"

definition msg_done :: jsstring where
  "msg_done =
     [0x9001, 0x4FE1, 0x304C, 0x5B8C, 0x4E86, 0x3057, 0x307E, 0x3057, 0x305F, 0x3002, 0x8FFD,
      0x3063, 0x3066, 0x3054, 0x9023, 0x7D61, 0x3044, 0x305F, 0x3057, 0x307E, 0x3059, 0xFF01]"

section \<open>The page\<close>

text \<open>
  The state both modules act on: the document, the Map \<open>isInvalid\<close> (its entries in
  insertion order, a control being the index of its element), the element that was last
  given focus, whether the click's default action was prevented, the console, the
  requests issued with \<open>fetch\<close> and the messages shown with \<open>alert\<close>.
\<close>

record page =
  elems :: "element list"
  isInvalid :: "(nat \<times> bool) list"
  focused :: "nat option"
  defaultPrevented :: bool
  console :: "jsstring list"
  requests :: "request list"
  alerts :: "jsstring list"

text \<open>\<open>submitContact(form)\<close> up to the call of \<open>fetch\<close>: \<open>getValues\<close>, then \<open>fetchValues\<close>
  issues the request.\<close>

definition submitContact :: "page \<Rightarrow> page" where
  "submitContact s = s\<lparr>requests := requests s @ [fetch_request (getValues (elems s))]\<rparr>"

text \<open>
  The promise \<open>fetch\<close> returned is fulfilled with a response (of any HTTP status) or
  rejected on a network failure; it may also stay pending, in which case nothing of this
  runs. \<open>then\<close> was given a fulfilment callback only, and that callback ignores the
  response.
\<close>

datatype settlement = Fulfilled nat | Rejected

definition settle :: "settlement \<Rightarrow> page \<Rightarrow> page" where
  "settle r s = (case r of Fulfilled status \<Rightarrow> s\<lparr>alerts := alerts s @ [msg_done]\<rparr> | Rejected \<Rightarrow> s)"

section \<open>The validation engine (\<open>_FormValidation.mjs\<close>)\<close>

subsection \<open>What the host provides\<close>

text \<open>
  A JavaScript number is NaN, an infinity or a finite value. The conversions between
  strings and numbers and the regular expression engine are parameters of the model:
  \<open>toNumber\<close> is \<open>Number(s)\<close>, \<open>numToString\<close> the conversion of a number inside a template
  literal, and \<open>regexp_test p v\<close> is \<open>new RegExp(p).test(v)\<close>, \<open>None\<close> when the constructor
  raises a SyntaxError.
\<close>

datatype jsnum = NaN | PosInf | NegInf | Fin rat

fun js_le :: "jsnum \<Rightarrow> jsnum \<Rightarrow> bool" where
  "js_le NaN y = False"
| "js_le x NaN = False"
| "js_le NegInf y = True"
| "js_le x PosInf = True"
| "js_le PosInf y = False"
| "js_le x NegInf = False"
| "js_le (Fin a) (Fin b) = (a \<le> b)"

record host =
  toNumber :: "jsstring \<Rightarrow> jsnum"
  numToString :: "jsnum \<Rightarrow> jsstring"
  regexp_test :: "jsstring \<Rightarrow> jsstring \<Rightarrow> bool option"

datatype error = TypeError | SyntaxError

subsection \<open>The rules\<close>

definition msg_minLength :: jsstring where
  "msg_minLength =
     [0x6587, 0x5B57, 0x4EE5, 0x4E0A, 0x5165, 0x529B, 0x3057, 0x3066, 0x304F, 0x3060, 0x3055,
      0x3044, 0x3002]"

definition msg_maxLength :: jsstring where
  "msg_maxLength =
     [0x6587, 0x5B57, 0x4EE5, 0x4E0B, 0x3067, 0x5165, 0x529B, 0x3057, 0x3066, 0x304F, 0x3060,
      0x3055, 0x3044, 0x3002]"

definition msg_required :: jsstring where
  "msg_required =
     [0x3053, 0x306E, 0x30D5, 0x30A3, 0x30FC, 0x30EB, 0x30C9, 0x306F, 0x5165, 0x529B, 0x5FC5,
      0x9808, 0x3067, 0x3059, 0x3002]"

definition msg_pattern :: jsstring where
  "msg_pattern =
     [0x6307, 0x5B9A, 0x3055, 0x308C, 0x3066, 0x3044, 0x308B, 0x5F62, 0x5F0F, 0x3067, 0x5165,
      0x529B, 0x3057, 0x3066, 0x304F, 0x3060, 0x3055, 0x3044, 0x3002]"

text \<open>A string or \<open>null\<close>/\<open>undefined\<close> in a condition: only a non-empty string is truthy.\<close>

definition truthy :: "jsstring option \<Rightarrow> bool" where
  "truthy a = (case a of None \<Rightarrow> False | Some s \<Rightarrow> s \<noteq> [])"

definition trimmed_length :: "element \<Rightarrow> nat" where
  "trimmed_length input = length (trim (evalue input))"

definition validate_minLength :: "host \<Rightarrow> element \<Rightarrow> jsstring" where
  "validate_minLength H input =
     (if \<not> truthy (minlength_attr input) then []
      else
        (let minlength = toNumber H (the (minlength_attr input)) in
         if js_le minlength (Fin (of_nat (trimmed_length input))) then []
         else numToString H minlength @ msg_minLength))"

definition validate_maxLength :: "host \<Rightarrow> element \<Rightarrow> jsstring" where
  "validate_maxLength H input =
     (if \<not> truthy (maxlength_attr input) then []
      else
        (case maxLength input of
           None \<Rightarrow> js ''undefined'' @ msg_maxLength
         | Some m \<Rightarrow>
             if int (trimmed_length input) \<le> m then []
             else numToString H (Fin (of_int m)) @ msg_maxLength))"

text \<open>\<open>form.querySelectorAll('input[type="radio"][name="..."]')\<close>: the radio buttons of the
  form whose \<open>name\<close> attribute is the given string (only an \<open>input\<close> element has the
  type \<open>radio\<close>). A radio button without a \<open>name\<close> attribute has the name \<open>''\<close>, and
  the selector \<open>[name=""]\<close> does not select it.\<close>

definition is_group_radio :: "jsstring \<Rightarrow> element \<Rightarrow> bool" where
  "is_group_radio n e = (in_form e \<and> etype e = js ''radio'' \<and> name_attr e = Some n)"

definition validate_required :: "element list \<Rightarrow> element \<Rightarrow> jsstring" where
  "validate_required els input =
     (if \<not> required input then []
      else if etype input = js ''checkbox'' then
        (if checked input then [] else msg_required)
      else if etype input = js ''radio'' then
        (let isChecked =
               length (filter (\<lambda>e. is_group_radio (ename input) e \<and> checked e) els) \<noteq> 0
         in if isChecked then [] else msg_required)
      else if trim (evalue input) = [] then
        (if truthy (data_errorMessage input) then the (data_errorMessage input)
         else msg_required)
      else [])"

definition validate_pattern :: "host \<Rightarrow> element \<Rightarrow> error + jsstring" where
  "validate_pattern H input =
     (if \<not> truthy (pattern_attr input) \<or> \<not> required input then Inr []
      else
        (case pattern input of
           None \<Rightarrow> Inr []
         | Some p \<Rightarrow>
             (case regexp_test H p (evalue input) of
                None \<Rightarrow> Inl SyntaxError
              | Some True \<Rightarrow> Inr []
              | Some False \<Rightarrow> Inr (if title input \<noteq> [] then title input else msg_pattern))))"

subsection \<open>\<open>result\<close> and \<open>getErrorId\<close>\<close>

definition br :: jsstring where
  "br = js ''<br>''"

definition result :: "jsstring list \<Rightarrow> jsstring" where
  "result messages = join br (filter (\<lambda>msg. msg \<noteq> []) messages)"

definition getErrorId :: "element \<Rightarrow> jsstring" where
  "getErrorId input =
     (if truthy (data_radioGroupError input) then the (data_radioGroupError input)
      else if truthy (data_errorId input) then the (data_errorId input) @ js ''-error''
      else eid input @ js ''-error'')"

subsection \<open>Queries and writes on the document\<close>

fun first_index :: "('a \<Rightarrow> bool) \<Rightarrow> 'a list \<Rightarrow> nat option" where
  "first_index P [] = None"
| "first_index P (x # xs) = (if P x then Some 0 else map_option Suc (first_index P xs))"

text \<open>\<open>document.getElementById\<close>: the first element with that id, in document order.\<close>

definition getElementById :: "element list \<Rightarrow> jsstring \<Rightarrow> nat option" where
  "getElementById els x = (if x = [] then None else first_index (\<lambda>e. eid e = x) els)"

text \<open>\<open>document.querySelectorAll('[for="..."]')\<close>.\<close>

definition is_label_for :: "jsstring \<Rightarrow> element \<Rightarrow> bool" where
  "is_label_for x e = (for_attr e = Some x)"

definition set_class_at :: "nat \<Rightarrow> bool \<Rightarrow> element list \<Rightarrow> element list" where
  "set_class_at i b els = els[i := (els ! i)\<lparr>is_error := b\<rparr>]"

definition set_class_where :: "(element \<Rightarrow> bool) \<Rightarrow> bool \<Rightarrow> element list \<Rightarrow> element list" where
  "set_class_where P b els = map (\<lambda>e. if P e then e\<lparr>is_error := b\<rparr> else e) els"

definition set_content_at :: "nat \<Rightarrow> jsstring \<Rightarrow> element list \<Rightarrow> element list" where
  "set_content_at i c els = els[i := (els ! i)\<lparr>content := c\<rparr>]"

text \<open>\<open>Map.prototype.set\<close>: a key that is present keeps its place.\<close>

definition map_set :: "nat \<Rightarrow> bool \<Rightarrow> (nat \<times> bool) list \<Rightarrow> (nat \<times> bool) list" where
  "map_set k v m =
     (if k \<in> fst ` set m then map (\<lambda>(k', v'). if k' = k then (k', v) else (k', v')) m
      else m @ [(k, v)])"

subsection \<open>\<open>resetInputErrorState\<close>\<close>

definition resetInputErrorState :: "nat \<Rightarrow> element list \<Rightarrow> element list" where
  "resetInputErrorState i els =
     (let input = els ! i;
          error = getElementById els (getErrorId input);
          els1 = (case error of None \<Rightarrow> els | Some e \<Rightarrow> set_content_at e [] els);
          els2 = (if etype input = js ''radio''
                  then set_class_where (is_group_radio (ename input)) False els1
                  else set_class_at i False els1);
          els3 = set_class_where (is_label_for (eid input)) False els2
      in if truthy (data_errorId input) then
           (case getElementById els3 (the (data_errorId input)) of
              None \<Rightarrow> els3
            | Some l \<Rightarrow> set_class_at l False els3)
         else els3)"

subsection \<open>\<open>getHandler\<close>\<close>

text \<open>The four rules, in the order of the array literal; only \<open>pattern\<close> can raise.\<close>

definition errorMessage :: "host \<Rightarrow> element list \<Rightarrow> element \<Rightarrow> error + jsstring" where
  "errorMessage H els input =
     (case validate_pattern H input of
        Inl e \<Rightarrow> Inl e
      | Inr p \<Rightarrow>
          Inr (result [validate_minLength H input, validate_maxLength H input,
                 validate_required els input, p]))"

text \<open>
  \<open>getHandler H i s\<close> evaluates the control at index \<open>i\<close>. The first component of its value
  is the exception that ended the call, if any: what was written before stays written.
  Where the source has a test of \<open>isValid\<close>, \<open>isValid\<close> is \<open>errorMessage === ''\<close>.
\<close>

definition getHandler :: "host \<Rightarrow> nat \<Rightarrow> page \<Rightarrow> error option \<times> page" where
  "getHandler H i s =
     (let input = elems s ! i;
          error = getElementById (elems s) (getErrorId input)
      in case errorMessage H (elems s) input of
           Inl e \<Rightarrow> (Some e, s)
         | Inr msg \<Rightarrow>
             (let isValid = (msg = []) in
              if \<not> isValid then
                (let s1 = s\<lparr>isInvalid := map_set i True (isInvalid s)\<rparr>;
                     s2 = s1\<lparr>elems := set_class_at i True (elems s1)\<rparr>;
                     s3 = s2\<lparr>elems := set_class_where (is_label_for (eid input)) True (elems s2)\<rparr>
                 in if msg \<noteq> [] then
                      (case error of
                         None \<Rightarrow> (Some TypeError, s3)
                       | Some e \<Rightarrow> (None, s3\<lparr>elems := set_content_at e msg (elems s3)\<rparr>))
                    else
                      (None, s3\<lparr>isInvalid := map_set i False (isInvalid s3),
                                elems := set_class_at i False (elems s3)\<rparr>))
              else
                (let s1 = s\<lparr>isInvalid := map_set i False (isInvalid s)\<rparr>
                 in (None, s1\<lparr>elems := resetInputErrorState i (elems s1)\<rparr>))))"

subsection \<open>\<open>addEvents\<close>: the listeners\<close>

text \<open>\<open>this.inputs\<close>: the form's controls in document order, each as the index of its
  element.\<close>

definition inputs :: "page \<Rightarrow> nat list" where
  "inputs s = filter (\<lambda>i. in_form (elems s ! i)) [0..<length (elems s)]"

text \<open>The \<open>forEach\<close> over the controls: an exception ends it.\<close>

fun forEach_getHandler :: "host \<Rightarrow> nat list \<Rightarrow> page \<Rightarrow> error option \<times> page" where
  "forEach_getHandler H [] s = (None, s)"
| "forEach_getHandler H (i # is) s =
     (case getHandler H i s of
        (Some e, s') \<Rightarrow> (Some e, s')
      | (None, s') \<Rightarrow> forEach_getHandler H is s')"

text \<open>How a call of the click listener ends.\<close>

datatype completion = Raised error | ReturnedFalse | ReturnedUndefined

definition first_invalid :: "(nat \<times> bool) list \<Rightarrow> nat option" where
  "first_invalid m = map_option fst (find snd m)"

definition click :: "host \<Rightarrow> page \<Rightarrow> completion \<times> page" where
  "click H s =
     (let s0 = s\<lparr>defaultPrevented := True\<rparr> in
      case forEach_getHandler H (inputs s0) s0 of
        (Some e, s1) \<Rightarrow> (Raised e, s1)
      | (None, s1) \<Rightarrow>
          (case first_invalid (isInvalid s1) of
             Some input \<Rightarrow> (ReturnedFalse, s1\<lparr>focused := Some input\<rparr>)
           | None \<Rightarrow>
               (ReturnedUndefined, submitContact (s1\<lparr>console := console s1 @ [js ''OK!'']\<rparr>))))"

section \<open>Notions used in the statements and proofs\<close>


text \<open>The inner \<open>switch\<close> of the radio case of \<open>getValues\<close>, as a function of the value.\<close>

definition type_label :: "jsstring \<Rightarrow> jsstring" where
  "type_label x =
     (if x = js ''radio01'' then label_radio01
      else if x = js ''radio02'' then label_radio02
      else if x = js ''radio03'' then label_radio03
      else if x = js ''radio04'' then label_radio04
      else [])"

definition is_type_radio :: "element \<Rightarrow> bool" where
  "is_type_radio e =
     (etype e = js ''radio'' \<and>
      (evalue e = js ''radio01'' \<or> evalue e = js ''radio02'' \<or> evalue e = js ''radio03'' \<or>
       evalue e = js ''radio04''))"

text \<open>
  The lines of a text are what stands between its line terminators. \<open>no_space_at_eol s\<close>:
  no white space character of \<open>s\<close> stands at the end of \<open>s\<close> or before a line terminator.
\<close>

definition ends_with_space :: "jsstring \<Rightarrow> bool" where
  "ends_with_space l = (l \<noteq> [] \<and> is_space (last l))"

definition begins_with_space :: "jsstring \<Rightarrow> bool" where
  "begins_with_space l = (case l of [] \<Rightarrow> False | c # _ \<Rightarrow> is_space c)"

fun split_lines :: "jsstring \<Rightarrow> jsstring list" where
  "split_lines [] = [[]]"
| "split_lines (c # s) =
     (if is_line_terminator c then [] # split_lines s
      else (case split_lines s of [] \<Rightarrow> [[c]] | l # ls \<Rightarrow> (c # l) # ls))"

fun no_space_at_eol :: "jsstring \<Rightarrow> bool" where
  "no_space_at_eol [] = True"
| "no_space_at_eol (c # s) = (\<not> (is_space c \<and> at_eol s) \<and> no_space_at_eol s)"

text \<open>
  The template around the company-name line: what stands before the label of that line,
  the value the line shows before \<open>replace\<close>, and what stands after the line break and
  indentation that follow it.
\<close>

definition company_shown :: "vals \<Rightarrow> jsstring" where
  "company_shown v = (if v_companyName v = [] then no_entry else v_companyName v)"

definition template_head :: "vals \<Rightarrow> jsstring" where
  "template_head v =
     [LF] @ indent @ line_heading @
     [LF] @ indent @ line_adv @ v_adv v @
     [LF] @ indent @ line_type @ v_type v @
     [LF] @ indent @ line_name @ v_name v @
     [LF] @ indent"

definition template_tail :: "vals \<Rightarrow> jsstring" where
  "template_tail v =
     line_email @ v_email v @
     [LF] @ indent @ line_detail @
     [LF] @ indent @ v_detail v @
     [LF] @ indent"

text \<open>
  \<open>frame e\<close> is \<open>e\<close> without what the engine writes (the class \<open>is-error\<close> and the
  content): two documents with the same frames differ only in what the engine wrote.
\<close>

definition frame :: "element \<Rightarrow> element" where
  "frame e = e\<lparr>is_error := False, content := []\<rparr>"

text \<open>
  For the proofs: what \<open>resetInputErrorState\<close> does once its lookups are made, and the two
  writes on one element.
\<close>

definition reset_by ::
  "element \<Rightarrow> nat option \<Rightarrow> nat option \<Rightarrow> nat \<Rightarrow> element list \<Rightarrow> element list" where
  "reset_by input error label i els =
     (let els1 = (case error of None \<Rightarrow> els | Some e \<Rightarrow> set_content_at e [] els);
          els2 = (if etype input = js ''radio''
                  then set_class_where (is_group_radio (ename input)) False els1
                  else set_class_at i False els1);
          els3 = set_class_where (is_label_for (eid input)) False els2
      in if truthy (data_errorId input) then
           (case label of None \<Rightarrow> els3 | Some l \<Rightarrow> set_class_at l False els3)
         else els3)"

definition mark :: "bool \<Rightarrow> bool \<Rightarrow> element \<Rightarrow> element" where
  "mark c b e = (if c then e\<lparr>is_error := b\<rparr> else e)"

definition write_content :: "bool \<Rightarrow> jsstring \<Rightarrow> element \<Rightarrow> element" where
  "write_content c x e = (if c then e\<lparr>content := x\<rparr> else e)"

text \<open>For the proofs: what the invalid branch of \<open>getHandler\<close> writes, once the error
  element is looked up.\<close>

definition mark_by :: "jsstring \<Rightarrow> nat option \<Rightarrow> jsstring \<Rightarrow> nat \<Rightarrow> element list \<Rightarrow> element list" where
  "mark_by x error msg i els =
     (case error of
        None \<Rightarrow> set_class_where (is_label_for x) True (set_class_at i True els)
      | Some e \<Rightarrow>
          set_content_at e msg (set_class_where (is_label_for x) True (set_class_at i True els)))"

text \<open>
  \<open>invalid H els i\<close>: the message of the control at index \<open>i\<close> is not empty.
  \<open>focus_order s\<close>: the controls in the order in which the Map holds them once every
  control has an entry: the keys it has, then the other controls in enumeration order.
\<close>

definition invalid :: "host \<Rightarrow> element list \<Rightarrow> nat \<Rightarrow> bool" where
  "invalid H els i = (case errorMessage H els (els ! i) of Inl e \<Rightarrow> False | Inr msg \<Rightarrow> msg \<noteq> [])"

definition focus_order :: "page \<Rightarrow> nat list" where
  "focus_order s = map fst (isInvalid s) @ filter (\<lambda>i. i \<notin> fst ` set (isInvalid s)) (inputs s)"

text \<open>The message of the pattern rule, when building the regular expression does not raise.\<close>

definition pattern_message :: "host \<Rightarrow> element \<Rightarrow> jsstring" where
  "pattern_message H input = (case validate_pattern H input of Inl e \<Rightarrow> [] | Inr p \<Rightarrow> p)"

section \<open>Example documents\<close>

definition no_attributes :: element where
  "no_attributes =
     \<lparr>in_form = False, etype = [], name_attr = None, eid = [], for_attr = None, evalue = [],
      checked = False, required = False, minlength_attr = None, maxlength_attr = None,
      maxLength = None, pattern_attr = None, pattern = None, title = [],
      data_errorMessage = None, data_radioGroupError = None, data_errorId = None,
      is_error = False, content = []\<rparr>"

definition radio_button :: "string \<Rightarrow> string \<Rightarrow> bool \<Rightarrow> element" where
  "radio_button n v c =
     no_attributes\<lparr>in_form := True, etype := js ''radio'', name_attr := Some (js n),
       evalue := js v, checked := c, maxLength := Some (- 1), pattern := Some []\<rparr>"

definition text_field :: "string \<Rightarrow> jsstring \<Rightarrow> element" where
  "text_field n v =
     no_attributes\<lparr>in_form := True, etype := js ''text'', name_attr := Some (js n), eid := js n,
       evalue := v, maxLength := Some (- 1), pattern := Some []\<rparr>"

text \<open>A contact form: the inquiry type \<open>radio01\<close> and the referral source \<open>sns\<close> are the
  checked ones; the company name is a parameter.\<close>

definition contact_form_with :: "jsstring \<Rightarrow> element list" where
  "contact_form_with company =
     [radio_button ''radio'' ''radio01'' True, radio_button ''radio'' ''radio02'' False,
      radio_button ''radio'' ''radio03'' False, radio_button ''radio'' ''radio04'' False,
      text_field ''name'' (js ''Taro''), text_field ''companyName'' company,
      text_field ''email'' (js ''taro@example.com''), text_field ''detail'' (js ''hello''),
      radio_button ''adv'' ''search'' False, radio_button ''adv'' ''sns'' True,
      radio_button ''adv'' ''friends'' False, radio_button ''adv'' ''blog'' False,
      radio_button ''adv'' ''other'' False]"

definition contact_form :: "element list" where
  "contact_form = contact_form_with []"

text \<open>
  A host for the examples: it answers as JavaScript does for the string \<open>3\<close>, the number
  3 and the pattern \<open>.+\<close> (which matches a string with a character that is not a line
  terminator); the examples ask nothing else of it.
\<close>

definition sample_host :: host where
  "sample_host =
     \<lparr>toNumber = (\<lambda>s. if s = js ''3'' then Fin 3 else NaN),
      numToString = (\<lambda>n. if n = Fin 3 then js ''3'' else js ''NaN''),
      regexp_test = (\<lambda>p v. if p = js ''.+'' then Some (list_ex (\<lambda>c. \<not> is_line_terminator c) v)
                              else None)\<rparr>"

definition required_field :: "string \<Rightarrow> jsstring \<Rightarrow> element" where
  "required_field n v =
     (text_field n v)\<lparr>required := True, minlength_attr := Some (js ''3''),
        pattern_attr := Some (js ''.+''), pattern := Some (js ''.+'')\<rparr>"

definition error_element :: "string \<Rightarrow> element" where
  "error_element x = no_attributes\<lparr>eid := js x\<rparr>"

definition page_of :: "element list \<Rightarrow> page" where
  "page_of els =
     \<lparr>elems = els, isInvalid = [], focused = None, defaultPrevented = False, console = [],
      requests = [], alerts = []\<rparr>"

definition two_fields :: page where
  "two_fields =
     page_of [required_field ''name'' [], required_field ''email'' [],
              error_element ''name-error'', error_element ''email-error'']"


definition group_radio :: "string \<Rightarrow> bool \<Rightarrow> bool \<Rightarrow> element" where
  "group_radio v r c =
     (radio_button ''g'' v c)\<lparr>required := r, data_radioGroupError := Some (js ''g-error'')\<rparr>"

definition radio_page :: page where
  "radio_page =
     page_of [group_radio ''a'' True False, group_radio ''b'' False False,
              error_element ''g-error'']"


text \<open>The page of two required fields with their values filled in, and the message of
  an empty one of them.\<close>

definition filled_fields :: page where
  "filled_fields =
     page_of [required_field ''name'' (js ''Taro''), required_field ''email'' (js ''taro@example.com''),
              error_element ''name-error'', error_element ''email-error'']"

definition three_messages :: jsstring where
  "three_messages = js ''3'' @ msg_minLength @ br @ msg_required @ br @ msg_pattern"

section \<open>The replacement \<open>/^\n|\s+$|^ {4}/gm\<close>\<close>

lemma rep4: "replicate 4 x = [x, x, x, x]"
  by (simp add: numeral_eq_Suc)

lemma LF_line_terminator: "is_line_terminator LF"
  by (simp add: is_line_terminator_def LF_def)

lemma SP_space: "is_space SP" "\<not> is_line_terminator SP"
  by (simp_all add: is_space_def is_white_space_def is_line_terminator_def SP_def)

lemma rg_nl: "s = LF # cs \<Longrightarrow> b \<Longrightarrow> replace_gm b s = replace_gm True cs"
  by (simp add: replace_gm.simps(2))

lemma rg_ws:
  "s = c # cs \<Longrightarrow> \<not> (b \<and> c = LF) \<Longrightarrow> ws_eol s = k \<Longrightarrow> 0 < k \<Longrightarrow>
   replace_gm b s = replace_gm (is_line_terminator (s ! (k - 1))) (drop k s)"
  by (auto simp add: replace_gm.simps(2))

lemma rg_sp:
  "s = c # cs \<Longrightarrow> ws_eol s = 0 \<Longrightarrow> b \<Longrightarrow> take 4 s = replicate 4 SP \<Longrightarrow>
   replace_gm b s = replace_gm False (drop 4 s)"
  by (auto simp add: replace_gm.simps(2) rep4 LF_def SP_def)

lemma rg_keep:
  "s = c # cs \<Longrightarrow> \<not> (b \<and> c = LF) \<Longrightarrow> ws_eol s = 0 \<Longrightarrow>
   \<not> (b \<and> take 4 s = replicate 4 SP) \<Longrightarrow>
   replace_gm b s = c # replace_gm (is_line_terminator c) cs"
  by (auto simp add: replace_gm.simps(2))

lemma ws_eol_0_tail: "is_space c \<Longrightarrow> ws_eol (c # cs) = 0 \<Longrightarrow> ws_eol cs = 0 \<and> \<not> at_eol cs"
  by (simp split: if_splits)

lemma not_at_eol_Cons: "\<not> at_eol s \<Longrightarrow> \<exists>d ds. s = d # ds \<and> \<not> is_line_terminator d"
  by (cases s) (simp_all add: at_eol_def)

lemma replace_gm_not_at_eol:
  assumes "ws_eol s = 0" and "\<not> at_eol s"
  shows "\<not> at_eol (replace_gm b s)"
proof -
  obtain d ds where s: "s = d # ds" and d: "\<not> is_line_terminator d"
    using not_at_eol_Cons[OF assms(2)] by blast
  have nl: "\<not> (b \<and> d = LF)" using d LF_line_terminator by auto
  show ?thesis
  proof (cases "b \<and> take 4 s = replicate 4 SP")
    case True
    then obtain r where r: "s = SP # SP # SP # SP # r"
      using s by (cases ds; cases "tl ds"; cases "tl (tl ds)") (auto simp: rep4)
    have "ws_eol r = 0 \<and> \<not> at_eol r"
      using assms(1) ws_eol_0_tail SP_space(1) unfolding r by blast
    then obtain e es where e: "r = e # es" "\<not> is_line_terminator e" "ws_eol r = 0"
      using not_at_eol_Cons by blast
    have "replace_gm b s = replace_gm False r" using rg_sp[OF s assms(1)] True r by simp
    also have "\<dots> = e # replace_gm (is_line_terminator e) es"
      using rg_keep[OF e(1) _ e(3)] by simp
    finally show ?thesis using e(2) by (simp add: at_eol_def)
  next
    case False
    have "replace_gm b s = d # replace_gm (is_line_terminator d) ds"
      using rg_keep[OF s nl assms(1) False] .
    then show ?thesis using d by (simp add: at_eol_def)
  qed
qed

lemma replace_gm_no_space_at_eol: "no_space_at_eol (replace_gm b s)"
proof (induction b s rule: replace_gm.induct)
  case (1 bol)
  show ?case by simp
next
  case (2 bol c cs)
  consider (a) "bol \<and> c = LF" | (b) "\<not> (bol \<and> c = LF)" "0 < ws_eol (c # cs)"
    | (c) "\<not> (bol \<and> c = LF)" "\<not> 0 < ws_eol (c # cs)" "bol \<and> take 4 (c # cs) = replicate 4 SP"
    | (d) "\<not> (bol \<and> c = LF)" "\<not> 0 < ws_eol (c # cs)" "\<not> (bol \<and> take 4 (c # cs) = replicate 4 SP)"
    by blast
  then show ?case
  proof cases
    case a
    then have "replace_gm bol (c # cs) = replace_gm True cs" using rg_nl by simp
    then show ?thesis using "2.IH"(1)[OF a] by simp
  next
    case b
    have "replace_gm bol (c # cs) =
        replace_gm (is_line_terminator ((c # cs) ! (ws_eol (c # cs) - 1)))
          (drop (ws_eol (c # cs)) (c # cs))"
      using rg_ws[OF refl b(1) refl b(2)] .
    then show ?thesis using "2.IH"(2)[OF b] by simp
  next
    case c
    have "replace_gm bol (c # cs) = replace_gm False (drop 4 (c # cs))"
      using rg_sp[OF refl] c by simp
    then show ?thesis using "2.IH"(3)[OF c] by simp
  next
    case d
    have k: "ws_eol (c # cs) = 0" using d(2) by simp
    have eq: "replace_gm bol (c # cs) = c # replace_gm (is_line_terminator c) cs"
      using rg_keep[OF refl d(1) k d(3)] .
    have "\<not> (is_space c \<and> at_eol (replace_gm (is_line_terminator c) cs))"
      using ws_eol_0_tail[of c cs] k replace_gm_not_at_eol by blast
    then show ?thesis using "2.IH"(4) d unfolding eq by (simp del: ws_eol.simps)
  qed
qed

lemma split_lines_hd: "\<exists>l ls. split_lines s = l # ls \<and> (l = []) = at_eol s"
  by (induction s) (auto simp: at_eol_def split: list.splits)

lemma no_space_at_eol_lines:
  "no_space_at_eol s \<Longrightarrow> list_all (\<lambda>l. \<not> ends_with_space l) (split_lines s)"
proof (induction s)
  case Nil
  show ?case by (simp add: ends_with_space_def)
next
  case (Cons c s)
  obtain l ls where l: "split_lines s = l # ls" "(l = []) = at_eol s"
    using split_lines_hd by blast
  show ?case
  proof (cases "is_line_terminator c")
    case True
    then show ?thesis using Cons by (simp add: ends_with_space_def)
  next
    case False
    have "\<not> ends_with_space (c # l)"
      using Cons l by (auto simp: ends_with_space_def)
    then show ?thesis using Cons False l by simp
  qed
qed

lemma at_eol_cut: "at_eol (X @ c # R) = at_eol (X @ [c])"
  by (cases X) (simp_all add: at_eol_def)

lemma ws_eol_cut:
  assumes "\<not> is_space c"
  shows "ws_eol (X @ c # R) = ws_eol (X @ [c])"
proof (induction X)
  case Nil
  show ?case using assms by simp
next
  case (Cons x X)
  have "ws_eol ((x # X) @ c # R) =
    (if is_space x then
        (if 0 < ws_eol (X @ c # R) then Suc (ws_eol (X @ c # R)) else if at_eol (X @ c # R) then 1 else 0)
      else 0)" by simp
  also have "\<dots> = (if is_space x then
        (if 0 < ws_eol (X @ [c]) then Suc (ws_eol (X @ [c])) else if at_eol (X @ [c]) then 1 else 0)
      else 0)" unfolding Cons.IH at_eol_cut[of X c R] ..
  also have "\<dots> = ws_eol ((x # X) @ [c])" by simp
  finally show ?case .
qed

lemma ws_eol_le: "\<not> is_space c \<Longrightarrow> ws_eol (X @ c # R) \<le> length X"
  by (induction X) (simp_all add: at_eol_def split: list.splits)

lemma not_space_simps:
  "\<not> is_space c \<Longrightarrow> c \<noteq> LF" "\<not> is_space c \<Longrightarrow> c \<noteq> SP" "\<not> is_space c \<Longrightarrow> \<not> is_line_terminator c"
  by (auto simp: is_space_def is_white_space_def is_line_terminator_def LF_def SP_def)

lemma replace_gm_keep:
  "\<not> is_space c \<Longrightarrow> replace_gm b (c # R) = c # replace_gm False R"
  by (simp add: not_space_simps rep4 replace_gm.simps(2))

lemma take4_cut:
  assumes "c \<noteq> SP"
  shows "(take 4 (X @ c # R) = replicate 4 SP) = (4 \<le> length X \<and> take 4 X = replicate 4 SP)"
proof (cases "4 \<le> length X")
  case True then show ?thesis by simp
next
  case False
  then have "(take 4 (X @ c # R)) ! length X = c" "length X < 4" by (simp_all add: nth_append)
  then have "take 4 (X @ c # R) \<noteq> replicate 4 SP" using assms
    by (metis nth_replicate)
  with False show ?thesis by simp
qed

lemma replace_gm_cut:
  assumes c: "\<not> is_space c"
  shows "replace_gm b (X @ c # R) = replace_gm b (X @ [c]) @ replace_gm False R"
proof (induction "length X" arbitrary: b X rule: less_induct)
  case less
  show ?case
  proof (cases X)
    case Nil
    then show ?thesis using replace_gm_keep[OF c, of b R] replace_gm_keep[OF c, of b "[]"]
      by simp
  next
    case (Cons x xs)
    define k where "k = ws_eol (X @ [c])"
    have k: "ws_eol (X @ c # R) = k" unfolding k_def by (rule ws_eol_cut[OF c])
    have k': "ws_eol (X @ [c]) = k" by (simp add: k_def)
    have kle: "k \<le> length X" using ws_eol_le[OF c, of X "[]"] by (simp add: k_def)
    have t4: "(take 4 (X @ c # R) = replicate 4 SP) = (take 4 (X @ [c]) = replicate 4 SP)"
      using take4_cut[of c X] c by (simp add: not_space_simps)
    have s1: "X @ c # R = x # (xs @ c # R)" and s2: "X @ [c] = x # (xs @ [c])"
      using Cons by simp_all
    consider (a) "b \<and> x = LF" | (b) "\<not> (b \<and> x = LF)" "0 < k"
      | (c) "\<not> (b \<and> x = LF)" "k = 0" "b \<and> take 4 (X @ [c]) = replicate 4 SP"
      | (d) "\<not> (b \<and> x = LF)" "k = 0" "\<not> (b \<and> take 4 (X @ [c]) = replicate 4 SP)"
      by blast
    then show ?thesis
    proof cases
      case a
      then have "replace_gm b (X @ c # R) = replace_gm True (xs @ c # R)"
        "replace_gm b (X @ [c]) = replace_gm True (xs @ [c])"
        using rg_nl[of "X @ c # R" "xs @ c # R" b] rg_nl[of "X @ [c]" "xs @ [c]" b] s1 s2 by simp_all
      then show ?thesis using less[of xs True] Cons by simp
    next
      case b
      have "k - 1 < length X" using b kle by simp
      then have n: "(X @ c # R) ! (k - 1) = (X @ [c]) ! (k - 1)" by (simp add: nth_append)
      have d: "drop k (X @ c # R) = drop k X @ c # R"
          "drop k (X @ [c]) = drop k X @ [c]" using kle by simp_all
      have len: "length (drop k X) < length X" using b Cons by simp
      have "replace_gm b (X @ c # R) = replace_gm (is_line_terminator ((X @ [c]) ! (k - 1))) (drop k X @ c # R)"
        using rg_ws[OF s1 b(1) k b(2)] n d by simp
      also have "\<dots> = replace_gm (is_line_terminator ((X @ [c]) ! (k - 1))) (drop k X @ [c]) @ replace_gm False R"
        using less[OF len] by simp
      also have "replace_gm (is_line_terminator ((X @ [c]) ! (k - 1))) (drop k X @ [c]) = replace_gm b (X @ [c])"
        using rg_ws[OF s2 b(1) k' b(2)] d by simp
      finally show ?thesis .
    next
      case c
      then have l4: "4 \<le> length X" using take4_cut[of c X "[]"] assms by (simp add: not_space_simps)
      have d: "drop 4 (X @ c # R) = drop 4 X @ c # R"
          "drop 4 (X @ [c]) = drop 4 X @ [c]" using l4 by simp_all
      have len: "length (drop 4 X) < length X" using l4 by simp
      have k0: "ws_eol (X @ c # R) = 0" "ws_eol (X @ [c]) = 0" using k k' c by simp_all
      have "replace_gm b (X @ c # R) = replace_gm False (drop 4 X @ c # R)"
        using rg_sp[OF s1 k0(1)] c t4 d by simp
      also have "\<dots> = replace_gm False (drop 4 X @ [c]) @ replace_gm False R"
        using less[OF len] by simp
      also have "replace_gm False (drop 4 X @ [c]) = replace_gm b (X @ [c])"
        using rg_sp[OF s2 k0(2)] c d by simp
      finally show ?thesis .
    next
      case d
      have k0: "ws_eol (X @ c # R) = 0" "ws_eol (X @ [c]) = 0" using k k' d by simp_all
      have d': "\<not> (b \<and> take 4 (X @ c # R) = replicate 4 SP)" using d t4 by simp
      have "replace_gm b (X @ c # R) = x # replace_gm (is_line_terminator x) (xs @ c # R)"
        using rg_keep[OF s1 d(1) k0(1) d'] .
      also have "\<dots> = x # replace_gm (is_line_terminator x) (xs @ [c]) @ replace_gm False R"
        using less[of xs] Cons by simp
      also have "\<dots> = replace_gm b (X @ [c]) @ replace_gm False R"
        using rg_keep[OF s2 d(1) k0(2) d(3)] by simp
      finally show ?thesis .
    qed
  qed
qed

lemma template_split:
  "template v = template_head v @ line_company @ company_shown v @ [LF] @ indent @ template_tail v"
  by (simp add: template_def template_head_def template_tail_def company_shown_def)

lemma indent_eq: "indent = [SP, SP, SP, SP, SP, SP]"
  by (simp add: indent_def numeral_eq_Suc)

lemma at_eol_Cons: "at_eol (c # s) = is_line_terminator c"
  by (simp add: at_eol_def)

lemma ws_eol_indent:
  assumes "\<not> is_space c"
  shows "ws_eol (LF # indent @ c # R) = 0" "ws_eol (indent @ c # R) = 0"
    "ws_eol (SP # SP # c # R) = 0" "ws_eol (SP # c # R) = 0"
  using assms not_space_simps(3)[OF assms]
  by (simp_all add: indent_eq at_eol_Cons SP_space)

lemma replace_gm_line_break:
  assumes c: "\<not> is_space c"
  shows "replace_gm False (LF # indent @ c # R) = LF # SP # SP # c # replace_gm False R"
proof -
  have "replace_gm False (LF # indent @ c # R) = LF # replace_gm True (indent @ c # R)"
    using rg_keep[OF refl _ ws_eol_indent(1)[OF c], of False] LF_line_terminator by simp
  also have "replace_gm True (indent @ c # R) = replace_gm False (SP # SP # c # R)"
    using rg_sp[of "indent @ c # R" SP "[SP, SP, SP, SP, SP] @ c # R" True] ws_eol_indent(2)[OF c]
    by (simp add: indent_eq rep4)
  also have "\<dots> = SP # replace_gm False (SP # c # R)"
    using rg_keep[OF refl _ ws_eol_indent(3)[OF c], of False] SP_space by simp
  also have "replace_gm False (SP # c # R) = SP # replace_gm False (c # R)"
    using rg_keep[OF refl _ ws_eol_indent(4)[OF c], of False] SP_space by simp
  also have "replace_gm False (c # R) = c # replace_gm False R"
    by (rule replace_gm_keep[OF c])
  finally show ?thesis .
qed

lemma ws_eol_value:
  assumes c: "\<not> is_space c"
  shows "list_all (\<lambda>x. \<not> is_line_terminator x) w \<Longrightarrow>
    ws_eol (w @ LF # indent @ c # R) = (if w \<noteq> [] \<and> list_all is_space w then length w else 0)"
proof (induction w)
  case Nil
  show ?case using ws_eol_indent(1)[OF c] by simp
next
  case (Cons x xs)
  have x: "\<not> is_line_terminator x" and xs: "list_all (\<lambda>x. \<not> is_line_terminator x) xs"
    using Cons.prems by simp_all
  have ae: "at_eol (xs @ LF # indent @ c # R) = (xs = [])"
    using xs LF_line_terminator by (cases xs) (simp_all add: at_eol_Cons)
  show ?case using Cons.IH[OF xs] ae x
    by (simp del: ws_eol.simps add: ws_eol.simps(2)[of x] at_eol_Cons LF_line_terminator)
qed

lemma trimEnd_Cons:
  "trimEnd (x # xs) = (if list_all is_space (x # xs) then [] else x # trimEnd xs)"
  by (auto simp: trimEnd_def dropWhile_append list_all_iff)

lemma replace_gm_value:
  assumes c: "\<not> is_space c"
  shows "list_all (\<lambda>x. \<not> is_line_terminator x) w \<Longrightarrow>
    replace_gm False (w @ LF # indent @ c # R) = trimEnd w @ LF # SP # SP # c # replace_gm False R"
proof (induction w)
  case Nil
  show ?case using replace_gm_line_break[OF c] by (simp add: trimEnd_def)
next
  case (Cons x xs)
  have x: "\<not> is_line_terminator x" and xs: "list_all (\<lambda>x. \<not> is_line_terminator x) xs"
    using Cons.prems by simp_all
  let ?s = "(x # xs) @ LF # indent @ c # R"
  have k: "ws_eol ?s = (if list_all is_space (x # xs) then length (x # xs) else 0)"
    using ws_eol_value[OF c Cons.prems, of R] by simp
  show ?case
  proof (cases "list_all is_space (x # xs)")
    case True
    have "?s ! (length (x # xs) - 1) = (x # xs) ! length xs"
      using nth_append[of "x # xs" "LF # indent @ c # R" "length xs"] by simp
    then have "\<not> is_line_terminator (?s ! (length (x # xs) - 1))"
      using Cons.prems by (simp add: list_all_length del: nth_Cons_Suc)
    then have "replace_gm False ?s = replace_gm False (LF # indent @ c # R)"
      using rg_ws[of ?s x "xs @ LF # indent @ c # R" False "length (x # xs)"] k True by simp
    then show ?thesis using True replace_gm_line_break[OF c] by (simp add: trimEnd_Cons)
  next
    case False
    have "replace_gm False ?s = x # replace_gm False (xs @ LF # indent @ c # R)"
      using rg_keep[of ?s x "xs @ LF # indent @ c # R" False] k False x by simp
    then show ?thesis using False Cons.IH[OF xs] by (simp add: trimEnd_Cons)
  qed
qed

lemma replace_gm_keep_all:
  "list_all (\<lambda>c. \<not> is_space c) X \<Longrightarrow> X \<noteq> [] \<Longrightarrow> replace_gm b (X @ R) = X @ replace_gm False R"
proof (induction X arbitrary: b)
  case Nil
  then show ?case by simp
next
  case (Cons x X)
  show ?case
  proof (cases X)
    case Nil
    then show ?thesis using Cons.prems replace_gm_keep by simp
  next
    case (Cons y Y)
    then show ?thesis using Cons.prems Cons.IH[of False] replace_gm_keep[of x b "X @ R"] by simp
  qed
qed

lemma line_company_no_space: "list_all (\<lambda>c. \<not> is_space c) line_company"
  by (simp add: line_company_def is_space_def is_white_space_def is_line_terminator_def)

lemma line_email_no_space: "list_all (\<lambda>c. \<not> is_space c) line_email"
  by (simp add: line_email_def is_space_def is_white_space_def is_line_terminator_def)

lemma replace_gm_label:
  assumes "list_all (\<lambda>c. \<not> is_space c) L" "L \<noteq> []"
  shows "replace_gm b (X @ L @ R) = replace_gm b (X @ L) @ replace_gm False R"
proof -
  obtain L' c where L: "L = L' @ [c]" using assms(2) by (metis rev_exhaust)
  then have c: "\<not> is_space c" using assms(1) by simp
  show ?thesis using replace_gm_cut[OF c, of b "X @ L'" R] L by simp
qed

lemma ws_eol_spaces: "j < ws_eol s \<Longrightarrow> is_space (s ! j)"
proof (induction s arbitrary: j)
  case Nil
  then show ?case by simp
next
  case (Cons c s)
  then show ?case by (cases j) (simp_all split: if_splits)
qed

lemma ws_eol_le_length: "ws_eol s \<le> length s"
  by (induction s) simp_all

lemma ws_eol_less_length:
  assumes "s \<noteq> []" "\<not> is_space (last s)"
  shows "ws_eol s < length s"
proof (rule ccontr)
  assume "\<not> ws_eol s < length s"
  then have "ws_eol s = length s" using ws_eol_le_length[of s] by simp
  then have "is_space (s ! (length s - 1))" using ws_eol_spaces[of "length s - 1" s] assms(1) by simp
  then show False using assms by (simp add: last_conv_nth)
qed

lemma replace_gm_last:
  "s \<noteq> [] \<Longrightarrow> \<not> is_space (last s) \<Longrightarrow>
   replace_gm b s \<noteq> [] \<and> last (replace_gm b s) = last s"
proof (induction b s rule: replace_gm.induct)
  case (1 bol)
  then show ?case by simp
next
  case (2 bol c cs)
  note ns = "2.prems"(2)
  consider (a) "bol \<and> c = LF" | (b) "\<not> (bol \<and> c = LF)" "0 < ws_eol (c # cs)"
    | (c) "\<not> (bol \<and> c = LF)" "\<not> 0 < ws_eol (c # cs)" "bol \<and> take 4 (c # cs) = replicate 4 SP"
    | (d) "\<not> (bol \<and> c = LF)" "\<not> 0 < ws_eol (c # cs)" "\<not> (bol \<and> take 4 (c # cs) = replicate 4 SP)"
    by blast
  then show ?case
  proof cases
    case a
    then have eq: "replace_gm bol (c # cs) = replace_gm True cs" using rg_nl by simp
    have "is_space c" using a LF_line_terminator by (simp add: is_space_def)
    then have "cs \<noteq> []" using ns by auto
    then show ?thesis using "2.IH"(1)[OF a] ns unfolding eq by simp
  next
    case b
    have eq: "replace_gm bol (c # cs) =
        replace_gm (is_line_terminator ((c # cs) ! (ws_eol (c # cs) - 1)))
          (drop (ws_eol (c # cs)) (c # cs))"
      using rg_ws[OF refl b(1) refl b(2)] .
    have lt: "ws_eol (c # cs) < length (c # cs)" using ws_eol_less_length[OF _ ns] by simp
    then have "drop (ws_eol (c # cs)) (c # cs) \<noteq> []"
      and "last (drop (ws_eol (c # cs)) (c # cs)) = last (c # cs)" by simp_all
    then show ?thesis using "2.IH"(2)[OF b] ns unfolding eq by simp
  next
    case c
    have eq: "replace_gm bol (c # cs) = replace_gm False (drop 4 (c # cs))"
      using rg_sp[OF refl] c by simp
    have "length (c # cs) \<noteq> 4"
    proof
      assume l: "length (c # cs) = 4"
      then have "c # cs = replicate 4 SP" using c by simp
      then have "last (c # cs) = SP" by (simp add: rep4)
      then show False using ns SP_space by simp
    qed
    moreover have "4 \<le> length (c # cs)" using c by (metis length_replicate length_take min.cobounded2 min.commute)
    ultimately have lt: "4 < length (c # cs)" by simp
    then have "drop 4 (c # cs) \<noteq> []" and "last (drop 4 (c # cs)) = last (c # cs)"
      using last_drop[of 4 "c # cs"] by simp_all
    then show ?thesis using "2.IH"(3)[OF c] ns unfolding eq by simp
  next
    case d
    have k: "ws_eol (c # cs) = 0" using d(2) by simp
    have eq: "replace_gm bol (c # cs) = c # replace_gm (is_line_terminator c) cs"
      using rg_keep[OF refl d(1) k d(3)] .
    show ?thesis
    proof (cases cs)
      case Nil
      then show ?thesis unfolding eq by simp
    next
      case (Cons y ys)
      then show ?thesis using "2.IH"(4)[OF d] ns unfolding eq by simp
    qed
  qed
qed

lemma replace_gm_label_end:
  assumes "list_all (\<lambda>c. \<not> is_space c) L" "L \<noteq> []"
  shows "\<exists>A. replace_gm b (X @ L) = A @ L"
proof -
  obtain c L' where L: "L = c # L'" using assms(2) by (cases L) simp_all
  then have c: "\<not> is_space c" and L': "list_all (\<lambda>c. \<not> is_space c) L'" using assms(1) by simp_all
  have 1: "replace_gm b (X @ c # L') = replace_gm b (X @ [c]) @ replace_gm False L'"
    by (rule replace_gm_cut[OF c])
  have "replace_gm b (X @ [c]) \<noteq> [] \<and> last (replace_gm b (X @ [c])) = c"
    using replace_gm_last[of "X @ [c]" b] c by simp
  then have 2: "replace_gm b (X @ [c]) = butlast (replace_gm b (X @ [c])) @ [c]"
    by (metis append_butlast_last_id)
  have 3: "replace_gm False L' = L'"
    using replace_gm_keep_all[OF L', of False "[]"] by (cases L') simp_all
  have "replace_gm b (X @ L) = butlast (replace_gm b (X @ [c])) @ L"
    using 1 2 3 L by (metis append.assoc append_Cons append_Nil)
  then show ?thesis by blast
qed

lemma line_company_ne: "line_company \<noteq> []"
  by (simp add: line_company_def)

lemma payload_text_company:
  assumes "list_all (\<lambda>x. \<not> is_line_terminator x) (company_shown v)"
  shows "payload_text v =
     replace_gm True (template_head v @ line_company) @ trimEnd (company_shown v) @
     [LF, SP, SP] @ replace_gm False (template_tail v)"
proof -
  define c where "c = hd line_email"
  define T where "T = tl line_email @ v_email v @ [LF] @ indent @ line_detail @ [LF] @ indent @
     v_detail v @ [LF] @ indent"
  have T: "template_tail v = c # T" "\<not> is_space c"
    using line_email_no_space by (simp_all add: template_tail_def c_def T_def line_email_def)
  have "payload_text v =
      replace_gm True (template_head v @ line_company @ (company_shown v @ LF # indent @ c # T))"
    unfolding payload_text_def template_split T(1) by simp
  also have "\<dots> = replace_gm True (template_head v @ line_company) @
      replace_gm False (company_shown v @ LF # indent @ c # T)"
    by (rule replace_gm_label[OF line_company_no_space line_company_ne])
  also have "replace_gm False (company_shown v @ LF # indent @ c # T) =
      trimEnd (company_shown v) @ LF # SP # SP # c # replace_gm False T"
    by (rule replace_gm_value[OF T(2) assms])
  also have "c # replace_gm False T = replace_gm False (template_tail v)"
    unfolding T(1) by (rule replace_gm_keep[OF T(2), symmetric])
  finally show ?thesis by simp
qed

lemma replace_gm_start:
  assumes c: "\<not> is_space c"
  shows "replace_gm True (LF # indent @ c # R) = SP # SP # c # replace_gm False R"
proof -
  have "replace_gm True (LF # indent @ c # R) = replace_gm True (indent @ c # R)"
    by (rule rg_nl[OF refl]) simp
  also have "replace_gm True (indent @ c # R) = replace_gm False (SP # SP # c # R)"
    using rg_sp[of "indent @ c # R" SP "[SP, SP, SP, SP, SP] @ c # R" True] ws_eol_indent(2)[OF c]
    by (simp add: indent_eq rep4)
  also have "\<dots> = SP # replace_gm False (SP # c # R)"
    using rg_keep[OF refl _ ws_eol_indent(3)[OF c], of False] SP_space by simp
  also have "replace_gm False (SP # c # R) = SP # replace_gm False (c # R)"
    using rg_keep[OF refl _ ws_eol_indent(4)[OF c], of False] SP_space by simp
  also have "replace_gm False (c # R) = c # replace_gm False R"
    by (rule replace_gm_keep[OF c])
  finally show ?thesis .
qed

lemma payload_text_start: "\<exists>r. payload_text v = SP # r"
proof -
  define c where "c = hd line_heading"
  have c: "\<not> is_space c"
    by (simp add: c_def line_heading_def is_space_def is_white_space_def is_line_terminator_def)
  obtain R where "template v = LF # indent @ c # R"
    by (simp add: template_def c_def line_heading_def)
  then show ?thesis using replace_gm_start[OF c] by (simp add: payload_text_def)
qed

lemma split_lines_begins:
  "begins_with_space (hd (split_lines (SP # r)))"
  using SP_space by (simp add: begins_with_space_def split: list.splits)

lemma no_entry_facts:
  "list_all (\<lambda>x. \<not> is_line_terminator x) no_entry" "trimEnd no_entry = no_entry" "no_entry \<noteq> []"
  by (simp_all add: no_entry_def trimEnd_def is_line_terminator_def is_space_def is_white_space_def)

lemma trimEnd_acme: "trimEnd (js ''  ACME  '') = js ''  ACME''"
  by (simp add: trimEnd_def js_def is_space_def is_white_space_def is_line_terminator_def)

section \<open>\<open>getValues\<close>: what is read and what is not\<close>

lemma getValues_step_checked:
  "getValues_step v (e\<lparr>checked := b\<rparr>) = getValues_step v e"
  by (simp add: getValues_step_def ename_def)

lemma foldl_getValues_checked:
  "foldl getValues_step v (map (\<lambda>e. e\<lparr>checked := f e\<rparr>) es) = foldl getValues_step v es"
  by (induction es arbitrary: v) (simp_all add: getValues_step_checked)

lemma form_inputs_checked:
  "form_inputs (map (\<lambda>e. e\<lparr>checked := f e\<rparr>) els) =
   map (\<lambda>e. e\<lparr>checked := f e\<rparr>) (form_inputs els)"
  by (simp add: form_inputs_def filter_map comp_def)

lemma getValues_checked: "getValues (map (\<lambda>e. e\<lparr>checked := f e\<rparr>) els) = getValues els"
  by (simp add: getValues_def form_inputs_checked foldl_getValues_checked)

lemma step_type:
  "v_type (getValues_step v e) = (if is_type_radio e then type_label (evalue e) else v_type v)"
  by (simp add: getValues_step_def is_type_radio_def type_label_def js_def)

lemma step_radio:
  "etype e = js ''radio'' \<Longrightarrow> getValues_step v e = v\<lparr>v_type := v_type (getValues_step v e)\<rparr>"
  by (simp add: getValues_step_def)

lemma foldl_snoc_type:
  "v_type (foldl getValues_step v (es @ [e])) =
     (if is_type_radio e then type_label (evalue e) else v_type (foldl getValues_step v es))"
  by (simp add: step_type)

lemma foldl_type:
  "v_type (foldl getValues_step v es) =
     (case filter is_type_radio es of
        [] \<Rightarrow> v_type v
      | r # rs \<Rightarrow> type_label (evalue (last (r # rs))))"
proof (induction es rule: rev_induct)
  case Nil
  show ?case by simp
next
  case (snoc e es)
  show ?case
  proof (cases "is_type_radio e")
    case True
    then have f: "filter is_type_radio (es @ [e]) = filter is_type_radio es @ [e]" by simp
    obtain r rs where rr: "filter is_type_radio es @ [e] = r # rs"
      by (cases "filter is_type_radio es @ [e]") simp_all
    have "last (r # rs) = e" using rr by (metis last_snoc)
    then show ?thesis using True unfolding foldl_snoc_type f rr by simp
  next
    case False
    then show ?thesis using snoc by (simp add: step_type)
  qed
qed

lemma getValues_contact_form_with:
  "getValues (contact_form_with company) =
     \<lparr>v_type = label_radio04, v_name = js ''Taro'', v_companyName = company,
      v_email = js ''taro@example.com'', v_detail = js ''hello'', v_adv = []\<rparr>"
  by (simp add: getValues_def form_inputs_def contact_form_with_def radio_button_def
      text_field_def no_attributes_def getValues_step_def js_def init_vals_def ename_def)

lemma getValues_contact_form:
  "getValues contact_form =
     \<lparr>v_type = label_radio04, v_name = js ''Taro'', v_companyName = [],
      v_email = js ''taro@example.com'', v_detail = js ''hello'', v_adv = []\<rparr>"
  by (simp add: contact_form_def getValues_contact_form_with)

text \<open>
  C10. \<open>getValues\<close> never reads the checked state of a control: changing which controls
  are checked changes neither the extracted values nor the request. The inquiry-type label
  is the label of the value of the last control of type radio, in enumeration order, whose
  value is one of radio01 to radio04 (and empty when there is none). A control of type
  radio takes the first case of the outer switch, so it leaves every other extracted value
  as it was, the referral source included.
\<close>

theorem getValues_ignores_checked:
  "getValues (map (\<lambda>e. e\<lparr>checked := f e\<rparr>) els) = getValues els \<and>
   fetch_request (getValues (map (\<lambda>e. e\<lparr>checked := f e\<rparr>) els)) = fetch_request (getValues els) \<and>
   v_type (getValues els) =
     (case filter is_type_radio (form_inputs els) of
        [] \<Rightarrow> []
      | r # rs \<Rightarrow> type_label (evalue (last (r # rs)))) \<and>
   (etype e = js ''radio'' \<longrightarrow>
      getValues_step v e =
        v\<lparr>v_type := (if is_type_radio e then type_label (evalue e) else v_type v)\<rparr>)"
proof -
  have "v_type (getValues els) =
     (case filter is_type_radio (form_inputs els) of
        [] \<Rightarrow> []
      | r # rs \<Rightarrow> type_label (evalue (last (r # rs))))"
    by (simp add: getValues_def foldl_type init_vals_def split: list.split)
  moreover have "etype e = js ''radio'' \<longrightarrow>
      getValues_step v e =
        v\<lparr>v_type := (if is_type_radio e then type_label (evalue e) else v_type v)\<rparr>"
    using step_radio[of e v] step_type[of v e] by simp
  ultimately show ?thesis by (simp add: getValues_checked)
qed

theorem getValues_ignores_checked_witness:
  "getValues (map (\<lambda>e. e\<lparr>checked := \<not> checked e\<rparr>) contact_form) = getValues contact_form \<and>
   v_type (getValues contact_form) = label_radio04 \<and>
   getValues_step init_vals (radio_button ''adv'' ''sns'' True) = init_vals"
proof -
  have t: "etype (radio_button ''adv'' ''sns'' True) = js ''radio''"
    and n: "\<not> is_type_radio (radio_button ''adv'' ''sns'' True)"
    by (simp_all add: radio_button_def is_type_radio_def js_def)
  show ?thesis
    using getValues_ignores_checked
      [of "\<lambda>e. \<not> checked e" contact_form "radio_button ''adv'' ''sns'' True" init_vals] t n
    by (simp add: getValues_contact_form)
qed

text \<open>
  C2, evaluated on the contact form above, where \<open>radio01\<close> and \<open>sns\<close> are checked: the
  extracted inquiry type is the label of \<open>radio04\<close>, the last radio button of the group, and
  the referral source is empty.
\<close>

theorem getValues_contact_form_labels:
  "v_type (getValues contact_form) = label_radio04 \<and> v_adv (getValues contact_form) = [] \<and>
   label_radio04 \<noteq> label_radio01 \<and> label_sns \<noteq> []"
  by (simp add: getValues_contact_form label_radio04_def label_radio01_def label_sns_def js_def)

section \<open>The payload\<close>

text \<open>
  The payload is an object with the one property \<open>text\<close>, and the body of the request is
  its JSON serialisation. The text is the template after the replacement, and in it no
  white space character stands before a line terminator or at the end.
\<close>

lemma payload_json_no_trailing_space:
  "payload v = [(js ''text'', payload_text v)] \<and>
   body (fetch_request v) =
     js ''{'' @ json_string (js ''text'') @ js '':'' @ json_string (payload_text v) @ js ''}'' \<and>
   payload_text v = replace_gm True (template v) \<and>
   no_space_at_eol (payload_text v) \<and>
   list_all (\<lambda>l. \<not> ends_with_space l) (split_lines (payload_text v))"
  using replace_gm_no_space_at_eol[of True "template v"]
    no_space_at_eol_lines[of "replace_gm True (template v)"]
  by (simp add: payload_def fetch_request_def JSON_stringify_def payload_text_def)

text \<open>
  C5, evaluated on the contact form. The template is indented by six spaces in the
  source and the replacement takes four spaces away at the start of a line: every line of
  the text begins with the two spaces that are left.
\<close>

theorem payload_lines_begin_with_spaces:
  "split_lines (payload_text (getValues contact_form)) =
     [[SP, SP] @ line_heading, [SP, SP] @ line_adv, [SP, SP] @ line_type @ label_radio04,
      [SP, SP] @ line_name @ js ''Taro'', [SP, SP] @ line_company @ no_entry,
      [SP, SP] @ line_email @ js ''taro@example.com'', [SP, SP] @ line_detail,
      [SP, SP] @ js ''hello''] \<and>
   list_all begins_with_space (split_lines (payload_text (getValues contact_form)))"
proof -
  have l: "split_lines (payload_text (getValues contact_form)) =
     [[SP, SP] @ line_heading, [SP, SP] @ line_adv, [SP, SP] @ line_type @ label_radio04,
      [SP, SP] @ line_name @ js ''Taro'', [SP, SP] @ line_company @ no_entry,
      [SP, SP] @ line_email @ js ''taro@example.com'', [SP, SP] @ line_detail,
      [SP, SP] @ js ''hello'']"
    unfolding getValues_contact_form by code_simp
  show ?thesis unfolding l using SP_space(1) by (simp add: begins_with_space_def)
qed

text \<open>
  C6, as amended. When the company name holds no line terminator, the text is: what the
  replacement leaves of the template up to the label of the company-name line, which
  ends with that label; then the placeholder if the company name is empty, and otherwise
  the company name without its trailing white space (its leading white space is kept);
  then a line break, two spaces and what the replacement leaves of the rest, which begins
  with the label of the e-mail line.
\<close>

theorem company_name_line:
  assumes "list_all (\<lambda>x. \<not> is_line_terminator x) (v_companyName v)"
  shows "payload_text v =
           replace_gm True (template_head v @ line_company) @
           (if v_companyName v = [] then no_entry else trimEnd (v_companyName v)) @
           [LF, SP, SP] @ replace_gm False (template_tail v) \<and>
         (\<exists>A. replace_gm True (template_head v @ line_company) = A @ line_company) \<and>
         (\<exists>B. replace_gm False (template_tail v) = line_email @ B)"
proof -
  have "list_all (\<lambda>x. \<not> is_line_terminator x) (company_shown v)"
    using assms no_entry_facts(1) by (simp add: company_shown_def)
  then have "payload_text v =
           replace_gm True (template_head v @ line_company) @
           (if v_companyName v = [] then no_entry else trimEnd (v_companyName v)) @
           [LF, SP, SP] @ replace_gm False (template_tail v)"
    using payload_text_company[of v] no_entry_facts(2) by (simp add: company_shown_def)
  moreover have "\<exists>A. replace_gm True (template_head v @ line_company) = A @ line_company"
    by (rule replace_gm_label_end[OF line_company_no_space line_company_ne])
  moreover have "\<exists>B. replace_gm False (template_tail v) = line_email @ B"
    unfolding template_tail_def
    using replace_gm_keep_all[OF line_email_no_space, of False] by (simp add: line_email_def)
  ultimately show ?thesis by blast
qed

theorem company_name_line_witness:
  "list_all (\<lambda>x. \<not> is_line_terminator x) (v_companyName (getValues (contact_form_with (js ''  ACME  '')))) \<and>
   payload_text (getValues (contact_form_with (js ''  ACME  ''))) =
     replace_gm True (template_head (getValues (contact_form_with (js ''  ACME  ''))) @ line_company) @
     js ''  ACME'' @ [LF, SP, SP] @
     replace_gm False (template_tail (getValues (contact_form_with (js ''  ACME  ''))))"
proof -
  have h: "list_all (\<lambda>x. \<not> is_line_terminator x)
      (v_companyName (getValues (contact_form_with (js ''  ACME  ''))))"
    by (simp add: getValues_contact_form_with js_def is_line_terminator_def)
  have n: "v_companyName (getValues (contact_form_with (js ''  ACME  ''))) = js ''  ACME  ''"
    "js ''  ACME  '' \<noteq> []"
    by (simp_all add: getValues_contact_form_with js_def)
  show ?thesis
    using company_name_line[OF h] h unfolding n(1) using n(2) by (simp add: trimEnd_acme)
qed

lemma acme_lines:
  "split_lines (payload_text (getValues (contact_form_with (js ''  ACME'')))) =
     [[SP, SP] @ line_heading, [SP, SP] @ line_adv, [SP, SP] @ line_type @ label_radio04,
      [SP, SP] @ line_name @ js ''Taro'', [SP, SP] @ line_company @ js ''  ACME'',
      [SP, SP] @ line_email @ js ''taro@example.com'', [SP, SP] @ line_detail,
      [SP, SP] @ js ''hello'']"
  unfolding getValues_contact_form_with by code_simp

text \<open>
  C6 as stated fails for a company name that begins with white space: the line shows the
  value as it is, not the trimmed value.
\<close>

theorem company_line_not_trimmed:
  "v_companyName (getValues (contact_form_with (js ''  ACME''))) = js ''  ACME'' \<and>
   trim (js ''  ACME'') = js ''ACME'' \<and>
   split_lines (payload_text (getValues (contact_form_with (js ''  ACME'')))) ! 4 =
     [SP, SP] @ line_company @ js ''  ACME'' \<and>
   [SP, SP] @ line_company @ js ''ACME'' \<notin>
     set (split_lines (payload_text (getValues (contact_form_with (js ''  ACME'')))))"
proof -
  have "trim (js ''  ACME'') = js ''ACME''"
    by (simp add: trim_def js_def is_space_def is_white_space_def is_line_terminator_def)
  moreover have "[SP, SP] @ line_company @ js ''ACME'' \<notin>
     set (split_lines (payload_text (getValues (contact_form_with (js ''  ACME'')))))"
    unfolding acme_lines
    by (simp add: line_company_def line_heading_def line_adv_def line_type_def line_name_def
        line_email_def line_detail_def js_def SP_def)
  moreover have "split_lines (payload_text (getValues (contact_form_with (js ''  ACME'')))) ! 4 =
     [SP, SP] @ line_company @ js ''  ACME''"
    unfolding acme_lines by simp
  moreover have "v_companyName (getValues (contact_form_with (js ''  ACME''))) = js ''  ACME''"
    by (simp add: getValues_contact_form_with)
  ultimately show ?thesis by blast
qed

section \<open>The acknowledgment\<close>

text \<open>
  C4. Issuing the request shows nothing. When the promise settles, the acknowledgment is
  shown iff it was fulfilled, whatever the status of the response; a rejection shows
  nothing. Neither step writes to the document or to the validity record.
\<close>

theorem acknowledgment_iff_fulfilled:
  "alerts (submitContact s) = alerts s \<and>
   (alerts (settle r s') = alerts s' @ [msg_done]) = (\<exists>status. r = Fulfilled status) \<and>
   (alerts (settle r s') = alerts s') = (r = Rejected) \<and>
   elems (submitContact s) = elems s \<and> isInvalid (submitContact s) = isInvalid s \<and>
   elems (settle r s') = elems s' \<and> isInvalid (settle r s') = isInvalid s'"
  by (cases r) (simp_all add: submitContact_def settle_def)

section \<open>What the engine reads and what it writes\<close>

lemma frame_updates [simp]:
  "frame (e\<lparr>is_error := b\<rparr>) = frame e" "frame (e\<lparr>content := c\<rparr>) = frame e"
  by (simp_all add: frame_def)

lemma frame_fields [simp]:
  "in_form (frame e) = in_form e" "etype (frame e) = etype e" "name_attr (frame e) = name_attr e"
  "eid (frame e) = eid e" "for_attr (frame e) = for_attr e" "evalue (frame e) = evalue e"
  "checked (frame e) = checked e" "required (frame e) = required e"
  "minlength_attr (frame e) = minlength_attr e" "maxlength_attr (frame e) = maxlength_attr e"
  "maxLength (frame e) = maxLength e" "pattern_attr (frame e) = pattern_attr e"
  "pattern (frame e) = pattern e" "title (frame e) = title e"
  "data_errorMessage (frame e) = data_errorMessage e"
  "data_radioGroupError (frame e) = data_radioGroupError e"
  "data_errorId (frame e) = data_errorId e"
  by (simp_all add: frame_def)

lemma ename_frame [simp]: "ename (frame e) = ename e"
  by (simp add: ename_def)

lemma is_group_radio_frame [simp]: "is_group_radio n (frame e) = is_group_radio n e"
  by (simp add: is_group_radio_def)

lemma is_label_for_frame [simp]: "is_label_for x (frame e) = is_label_for x e"
  by (simp add: is_label_for_def)

lemma getErrorId_frame [simp]: "getErrorId (frame e) = getErrorId e"
  by (simp add: getErrorId_def)

lemma trimmed_length_frame [simp]: "trimmed_length (frame e) = trimmed_length e"
  by (simp add: trimmed_length_def)

lemma validate_minLength_frame [simp]: "validate_minLength H (frame e) = validate_minLength H e"
  by (simp add: validate_minLength_def)

lemma validate_maxLength_frame [simp]: "validate_maxLength H (frame e) = validate_maxLength H e"
  by (simp add: validate_maxLength_def split: option.split)

lemma validate_pattern_frame [simp]: "validate_pattern H (frame e) = validate_pattern H e"
  by (simp add: validate_pattern_def split: option.split bool.split)

lemma filter_frame:
  "length (filter (\<lambda>e. P (frame e)) els) = length (filter P (map frame els))"
  by (induction els) simp_all

lemma validate_required_frame:
  "validate_required (map frame els) (frame e) = validate_required els e"
proof -
  have "length (filter (\<lambda>x. is_group_radio (ename e) x \<and> checked x) (map frame els)) =
        length (filter (\<lambda>x. is_group_radio (ename e) x \<and> checked x) els)"
    using filter_frame[of "\<lambda>x. is_group_radio (ename e) x \<and> checked x" els] by simp
  then show ?thesis by (simp add: validate_required_def)
qed

lemma errorMessage_frame:
  "errorMessage H (map frame els) (frame e) = errorMessage H els e"
  by (simp add: errorMessage_def validate_required_frame split: sum.split)

lemma first_index_frame:
  "first_index (\<lambda>e. P (frame e)) els = first_index P (map frame els)"
  by (induction els) simp_all

lemma getElementById_frame: "getElementById (map frame els) x = getElementById els x"
  using first_index_frame[of "\<lambda>e. eid e = x" els] by (simp add: getElementById_def)

lemma first_index_less: "first_index P xs = Some i \<Longrightarrow> i < length xs"
  by (induction xs arbitrary: i) (auto split: if_splits)

lemma getElementById_less: "getElementById els x = Some i \<Longrightarrow> i < length els"
  by (auto simp: getElementById_def first_index_less split: if_splits)

lemma same_frame_nth:
  "map frame els' = map frame els \<Longrightarrow> i < length els \<Longrightarrow> frame (els' ! i) = frame (els ! i)"
  by (metis length_map nth_map)

lemma same_frame_errorMessage:
  assumes "map frame els' = map frame els" "i < length els"
  shows "errorMessage H els' (els' ! i) = errorMessage H els (els ! i)"
  using errorMessage_frame[of H els' "els' ! i"] errorMessage_frame[of H els "els ! i"]
    same_frame_nth[OF assms] assms(1) by simp

lemma same_frame_getElementById:
  "map frame els' = map frame els \<Longrightarrow> getElementById els' x = getElementById els x"
  using getElementById_frame[of els' x] getElementById_frame[of els x] by simp

lemma frame_set_class_at [simp]: "map frame (set_class_at i b els) = map frame els"
  by (simp add: set_class_at_def map_update) (metis frame_updates(1) list_update_id map_update)

lemma frame_set_content_at [simp]: "map frame (set_content_at i c els) = map frame els"
  by (simp add: set_content_at_def map_update) (metis frame_updates(2) list_update_id map_update)

lemma frame_set_class_where [simp]: "map frame (set_class_where P b els) = map frame els"
  by (simp add: set_class_where_def)

lemma frame_resetInputErrorState [simp]: "map frame (resetInputErrorState i els) = map frame els"
  by (simp add: resetInputErrorState_def Let_def split: option.splits)

lemma length_set_class_at [simp]: "length (set_class_at i b els) = length els"
  by (simp add: set_class_at_def)

lemma length_set_class_where [simp]: "length (set_class_where P b els) = length els"
  by (simp add: set_class_where_def)

lemma length_set_content_at [simp]: "length (set_content_at i c els) = length els"
  by (simp add: set_content_at_def)

lemma length_resetInputErrorState [simp]: "length (resetInputErrorState i els) = length els"
  by (simp add: resetInputErrorState_def Let_def split: option.splits)

lemma nth_set_class_at:
  "j < length els \<Longrightarrow>
   set_class_at i b els ! j = (if j = i then (els ! j)\<lparr>is_error := b\<rparr> else els ! j)"
  by (simp add: set_class_at_def nth_list_update)

lemma nth_set_class_where:
  "j < length els \<Longrightarrow>
   set_class_where P b els ! j = (if P (els ! j) then (els ! j)\<lparr>is_error := b\<rparr> else els ! j)"
  by (simp add: set_class_where_def)

lemma nth_set_content_at:
  "j < length els \<Longrightarrow>
   set_content_at i c els ! j = (if j = i then (els ! j)\<lparr>content := c\<rparr> else els ! j)"
  by (simp add: set_content_at_def nth_list_update)

lemma is_label_for_update [simp]:
  "is_label_for x (e\<lparr>is_error := b\<rparr>) = is_label_for x e"
  "is_label_for x (e\<lparr>content := c\<rparr>) = is_label_for x e"
  by (simp_all add: is_label_for_def)

lemma is_group_radio_update [simp]:
  "is_group_radio n (e\<lparr>is_error := b\<rparr>) = is_group_radio n e"
  "is_group_radio n (e\<lparr>content := c\<rparr>) = is_group_radio n e"
  by (simp_all add: is_group_radio_def)

lemma map_set_idem [simp]: "map_set k v (map_set k v m) = map_set k v m"
  by (induction m) (auto simp: map_set_def split: if_splits)

lemma getHandler_eq:
  "getHandler H i s =
     (case errorMessage H (elems s) (elems s ! i) of
        Inl e \<Rightarrow> (Some e, s)
      | Inr msg \<Rightarrow>
          if msg \<noteq> [] then
            (case getElementById (elems s) (getErrorId (elems s ! i)) of
               None \<Rightarrow>
                 (Some TypeError,
                  s\<lparr>isInvalid := map_set i True (isInvalid s),
                    elems := set_class_where (is_label_for (eid (elems s ! i))) True
                               (set_class_at i True (elems s))\<rparr>)
             | Some e \<Rightarrow>
                 (None,
                  s\<lparr>isInvalid := map_set i True (isInvalid s),
                    elems := set_content_at e msg
                               (set_class_where (is_label_for (eid (elems s ! i))) True
                                 (set_class_at i True (elems s)))\<rparr>))
          else
            (None,
             s\<lparr>isInvalid := map_set i False (isInvalid s),
               elems := resetInputErrorState i (elems s)\<rparr>))"
  by (simp add: getHandler_def Let_def split: sum.split option.split)

lemma length_reset_by [simp]: "length (reset_by input error label i els) = length els"
  by (simp add: reset_by_def Let_def split: option.splits)

lemma frame_reset_by [simp]: "map frame (reset_by input error label i els) = map frame els"
  by (simp add: reset_by_def Let_def split: option.splits)

lemma reset_by_same_frame:
  assumes "map frame els' = map frame els" "i < length els"
  shows "resetInputErrorState i els' =
     reset_by (frame (els ! i)) (getElementById els (getErrorId (els ! i)))
       (getElementById els (the (data_errorId (els ! i)))) i els'"
proof -
  have f: "frame (els' ! i) = frame (els ! i)" by (rule same_frame_nth[OF assms])
  have st: "etype (els' ! i) = etype (els ! i)" "ename (els' ! i) = ename (els ! i)"
    "eid (els' ! i) = eid (els ! i)" "data_errorId (els' ! i) = data_errorId (els ! i)"
    "getErrorId (els' ! i) = getErrorId (els ! i)"
    using f by (metis frame_fields ename_frame getErrorId_frame)+
  have g: "getElementById els' x = getElementById els x" for x
    by (rule same_frame_getElementById[OF assms(1)])
  have g3: "getElementById els3 x = getElementById els x" if "map frame els3 = map frame els'" for els3 x
    using that assms(1) same_frame_getElementById by metis
  show ?thesis
    unfolding resetInputErrorState_def reset_by_def Let_def st g
    by (simp add: g3 split: option.split)
qed

lemma nth_mark_at: "j < length els \<Longrightarrow> set_class_at i b els ! j = mark (j = i) b (els ! j)"
  by (simp add: nth_set_class_at mark_def)

lemma nth_mark_where:
  "j < length els \<Longrightarrow> set_class_where P b els ! j = mark (P (els ! j)) b (els ! j)"
  by (simp add: nth_set_class_where mark_def)

lemma nth_write_at:
  "j < length els \<Longrightarrow> set_content_at i c els ! j = write_content (j = i) c (els ! j)"
  by (simp add: nth_set_content_at write_content_def)

lemma static_mark [simp]:
  "is_label_for x (mark c b e) = is_label_for x e"
  "is_group_radio n (mark c b e) = is_group_radio n e"
  "is_label_for x (write_content c y e) = is_label_for x e"
  "is_group_radio n (write_content c y e) = is_group_radio n e"
  by (simp_all add: mark_def write_content_def)

lemma nth_reset_by:
  "j < length els \<Longrightarrow>
   reset_by input error label i els ! j =
     mark (truthy (data_errorId input) \<and> label = Some j) False
       (mark (is_label_for (eid input) (els ! j)) False
         (mark (if etype input = js ''radio'' then is_group_radio (ename input) (els ! j) else j = i)
            False
           (write_content (error = Some j) [] (els ! j))))"
proof -
  assume j: "j < length els"
  define els1 where "els1 = (case error of None \<Rightarrow> els | Some e \<Rightarrow> set_content_at e [] els)"
  define els2 where "els2 = (if etype input = js ''radio''
                  then set_class_where (is_group_radio (ename input)) False els1
                  else set_class_at i False els1)"
  define els3 where "els3 = set_class_where (is_label_for (eid input)) False els2"
  have l: "length els1 = length els" "length els2 = length els" "length els3 = length els"
    by (simp_all add: els1_def els2_def els3_def split: option.split)
  have 1: "els1 ! j = write_content (error = Some j) [] (els ! j)"
    using j by (cases error) (auto simp: els1_def nth_write_at write_content_def)
  have 2: "els2 ! j = mark (if etype input = js ''radio'' then is_group_radio (ename input) (els ! j) else j = i)
            False (els1 ! j)"
    using j l by (simp add: els2_def nth_mark_where nth_mark_at 1)
  have 3: "els3 ! j = mark (is_label_for (eid input) (els ! j)) False (els2 ! j)"
    using j l by (simp add: els3_def nth_mark_where 2 1)
  have 4: "reset_by input error label i els ! j =
      mark (truthy (data_errorId input) \<and> label = Some j) False (els3 ! j)"
    using j l unfolding reset_by_def Let_def els1_def[symmetric] els2_def[symmetric] els3_def[symmetric]
    by (cases label) (auto simp: nth_mark_at mark_def)
  show ?thesis unfolding 4 3 2 1 ..
qed

lemma mark_write_idem:
  "mark a x (mark b x (mark c x (write_content d y (mark a x (mark b x (mark c x (write_content d y e))))))) =
   mark a x (mark b x (mark c x (write_content d y e)))"
  by (simp add: mark_def write_content_def)

lemma reset_by_idem:
  "reset_by input error label i (reset_by input error label i els) =
   reset_by input error label i els"
proof (rule nth_equalityI)
  show "length (reset_by input error label i (reset_by input error label i els)) =
    length (reset_by input error label i els)" by simp
next
  fix j assume "j < length (reset_by input error label i (reset_by input error label i els))"
  then have j: "j < length els" by simp
  show "reset_by input error label i (reset_by input error label i els) ! j =
    reset_by input error label i els ! j"
    using j by (simp add: nth_reset_by mark_write_idem)
qed

lemma length_mark_by [simp]: "length (mark_by x error msg i els) = length els"
  by (simp add: mark_by_def split: option.split)

lemma frame_mark_by [simp]: "map frame (mark_by x error msg i els) = map frame els"
  by (simp add: mark_by_def split: option.split)

lemma nth_mark_by:
  "j < length els \<Longrightarrow>
   mark_by x error msg i els ! j =
     write_content (error = Some j) msg (mark (is_label_for x (els ! j)) True (mark (j = i) True (els ! j)))"
  by (cases error) (auto simp: mark_by_def nth_write_at nth_mark_where nth_mark_at write_content_def)

lemma mark_by_elem_idem:
  "write_content d y (mark a x (mark b x (write_content d y (mark a x (mark b x e))))) =
   write_content d y (mark a x (mark b x e))"
  by (simp add: mark_def write_content_def)

lemma mark_by_idem: "mark_by x error msg i (mark_by x error msg i els) = mark_by x error msg i els"
proof (rule nth_equalityI)
  show "length (mark_by x error msg i (mark_by x error msg i els)) = length (mark_by x error msg i els)"
    by simp
next
  fix j assume "j < length (mark_by x error msg i (mark_by x error msg i els))"
  then have j: "j < length els" by simp
  show "mark_by x error msg i (mark_by x error msg i els) ! j = mark_by x error msg i els ! j"
    using j by (simp add: nth_mark_by mark_by_elem_idem)
qed

lemma getHandler_eq2:
  assumes "i < length (elems s)"
  shows "getHandler H i s =
     (case errorMessage H (elems s) (elems s ! i) of
        Inl e \<Rightarrow> (Some e, s)
      | Inr msg \<Rightarrow>
          if msg \<noteq> [] then
            (if getElementById (elems s) (getErrorId (elems s ! i)) = None then Some TypeError else None,
             s\<lparr>isInvalid := map_set i True (isInvalid s),
               elems := mark_by (eid (elems s ! i)) (getElementById (elems s) (getErrorId (elems s ! i)))
                          msg i (elems s)\<rparr>)
          else
            (None,
             s\<lparr>isInvalid := map_set i False (isInvalid s),
               elems := reset_by (frame (elems s ! i))
                  (getElementById (elems s) (getErrorId (elems s ! i)))
                  (getElementById (elems s) (the (data_errorId (elems s ! i)))) i (elems s)\<rparr>))"
  unfolding getHandler_eq reset_by_same_frame[OF refl assms]
  by (simp add: mark_by_def split: sum.split option.split)

lemma getHandler_frame:
  assumes "i < length (elems s)"
  shows "map frame (elems (snd (getHandler H i s))) = map frame (elems s)"
  unfolding getHandler_eq2[OF assms] by (simp split: sum.split)

lemma getHandler_other_fields:
  assumes "i < length (elems s)"
  shows "focused (snd (getHandler H i s)) = focused s"
    "defaultPrevented (snd (getHandler H i s)) = defaultPrevented s"
    "console (snd (getHandler H i s)) = console s"
    "requests (snd (getHandler H i s)) = requests s"
    "alerts (snd (getHandler H i s)) = alerts s"
  unfolding getHandler_eq2[OF assms] by (simp_all split: sum.split)

lemma getHandler_isInvalid:
  assumes "i < length (elems s)"
  shows "isInvalid (snd (getHandler H i s)) =
     (case errorMessage H (elems s) (elems s ! i) of
        Inl e \<Rightarrow> isInvalid s
      | Inr msg \<Rightarrow> map_set i (msg \<noteq> []) (isInvalid s))"
  unfolding getHandler_eq2[OF assms] by (simp split: sum.split)

lemma getHandler_fst:
  assumes "i < length (elems s)"
  shows "fst (getHandler H i s) =
     (case errorMessage H (elems s) (elems s ! i) of
        Inl e \<Rightarrow> Some e
      | Inr msg \<Rightarrow>
          if msg \<noteq> [] \<and> getElementById (elems s) (getErrorId (elems s ! i)) = None
          then Some TypeError else None)"
  unfolding getHandler_eq2[OF assms] by (simp split: sum.split)

lemma getHandler_again:
  assumes i: "i < length (elems s)"
  shows "getHandler H i (snd (getHandler H i s)) = getHandler H i s"
proof -
  define s' where "s' = snd (getHandler H i s)"
  have fr: "map frame (elems s') = map frame (elems s)"
    unfolding s'_def by (rule getHandler_frame[OF i])
  have i': "i < length (elems s')" using fr i by (metis length_map)
  have f: "frame (elems s' ! i) = frame (elems s ! i)" by (rule same_frame_nth[OF fr i])
  have st: "eid (elems s' ! i) = eid (elems s ! i)"
    "data_errorId (elems s' ! i) = data_errorId (elems s ! i)"
    "getErrorId (elems s' ! i) = getErrorId (elems s ! i)"
    using f by (metis frame_fields getErrorId_frame)+
  have g: "getElementById (elems s') x = getElementById (elems s) x" for x
    by (rule same_frame_getElementById[OF fr])
  have m: "errorMessage H (elems s') (elems s' ! i) = errorMessage H (elems s) (elems s ! i)"
    by (rule same_frame_errorMessage[OF fr i])
  show ?thesis
  proof (cases "errorMessage H (elems s) (elems s ! i)")
    case (Inl e)
    then have "s' = s" unfolding s'_def getHandler_eq2[OF i] by simp
    then show ?thesis unfolding s'_def[symmetric] by simp
  next
    case (Inr msg)
    show ?thesis
    proof (cases "msg = []")
      case True
      have s': "s' = s\<lparr>isInvalid := map_set i False (isInvalid s),
               elems := reset_by (frame (elems s ! i))
                  (getElementById (elems s) (getErrorId (elems s ! i)))
                  (getElementById (elems s) (the (data_errorId (elems s ! i)))) i (elems s)\<rparr>"
        unfolding s'_def getHandler_eq2[OF i] using Inr True by simp
      have "getHandler H i s' = (None, s')"
        unfolding getHandler_eq2[OF i'] m f st g using Inr True
        by (simp add: s' reset_by_idem)
      moreover have "getHandler H i s = (None, s')"
        unfolding getHandler_eq2[OF i] using Inr True by (simp add: s')
      ultimately show ?thesis unfolding s'_def[symmetric] by simp
    next
      case False
      define r where "r = (if getElementById (elems s) (getErrorId (elems s ! i)) = None
        then Some TypeError else None)"
      have s': "s' = s\<lparr>isInvalid := map_set i True (isInvalid s),
               elems := mark_by (eid (elems s ! i)) (getElementById (elems s) (getErrorId (elems s ! i)))
                          msg i (elems s)\<rparr>"
        unfolding s'_def getHandler_eq2[OF i] using Inr False by simp
      have "getHandler H i s' = (r, s')"
        unfolding getHandler_eq2[OF i'] m f st g using Inr False
        by (simp add: s' mark_by_idem r_def)
      moreover have "getHandler H i s = (r, s')"
        unfolding getHandler_eq2[OF i] using Inr False by (simp add: s' r_def)
      ultimately show ?thesis unfolding s'_def[symmetric] by simp
    qed
  qed
qed

section \<open>The click listener\<close>

lemma same_frame_invalid:
  "map frame els' = map frame els \<Longrightarrow> i < length els \<Longrightarrow> invalid H els' i = invalid H els i"
  unfolding invalid_def using same_frame_errorMessage[of els' els i H] by simp

lemma inputs_less: "i \<in> set (inputs s) \<Longrightarrow> i < length (elems s)"
  by (simp add: inputs_def)

lemma distinct_inputs: "distinct (inputs s)"
  by (simp add: inputs_def)

lemma forEach_getHandler_frame:
  "list_all (\<lambda>i. i < length (elems s)) is \<Longrightarrow>
   map frame (elems (snd (forEach_getHandler H is s))) = map frame (elems s)"
proof (induction "is" arbitrary: s)
  case Nil
  show ?case by simp
next
  case (Cons i "is")
  have i: "i < length (elems s)" using Cons.prems by simp
  obtain r s' where g: "getHandler H i s = (r, s')" by (cases "getHandler H i s")
  have fr: "map frame (elems s') = map frame (elems s)"
    using getHandler_frame[OF i, of H] g by simp
  then have len: "length (elems s') = length (elems s)" by (metis length_map)
  show ?case
  proof (cases r)
    case None
    then show ?thesis using Cons.IH[of s'] Cons.prems g fr len by simp
  next
    case (Some e)
    then show ?thesis using g fr by simp
  qed
qed

lemma forEach_getHandler_other_fields:
  "list_all (\<lambda>i. i < length (elems s)) is \<Longrightarrow>
   focused (snd (forEach_getHandler H is s)) = focused s \<and>
   defaultPrevented (snd (forEach_getHandler H is s)) = defaultPrevented s \<and>
   console (snd (forEach_getHandler H is s)) = console s \<and>
   requests (snd (forEach_getHandler H is s)) = requests s \<and>
   alerts (snd (forEach_getHandler H is s)) = alerts s"
proof (induction "is" arbitrary: s)
  case Nil
  show ?case by simp
next
  case (Cons i "is")
  have i: "i < length (elems s)" using Cons.prems by simp
  obtain r s' where g: "getHandler H i s = (r, s')" by (cases "getHandler H i s")
  have fr: "map frame (elems s') = map frame (elems s)"
    using getHandler_frame[OF i, of H] g by simp
  then have len: "length (elems s') = length (elems s)" by (metis length_map)
  have o: "focused s' = focused s" "defaultPrevented s' = defaultPrevented s"
    "console s' = console s" "requests s' = requests s" "alerts s' = alerts s"
    using getHandler_other_fields[OF i, of H] g by simp_all
  show ?case
  proof (cases r)
    case None
    then show ?thesis using Cons.IH[of s'] Cons.prems g o len by simp
  next
    case (Some e)
    then show ?thesis using g o by simp
  qed
qed

lemma forEach_getHandler_isInvalid:
  "list_all (\<lambda>i. i < length (elems s)) is \<Longrightarrow> fst (forEach_getHandler H is s) = None \<Longrightarrow>
   isInvalid (snd (forEach_getHandler H is s)) =
     foldl (\<lambda>m i. map_set i (invalid H (elems s) i) m) (isInvalid s) is"
proof (induction "is" arbitrary: s)
  case Nil
  show ?case by simp
next
  case (Cons i "is")
  have i: "i < length (elems s)" using Cons.prems by simp
  obtain r s' where g: "getHandler H i s = (r, s')" by (cases "getHandler H i s")
  have r: "r = None" using Cons.prems(2) g by (cases r) simp_all
  have fr: "map frame (elems s') = map frame (elems s)"
    using getHandler_frame[OF i, of H] g by simp
  then have len: "length (elems s') = length (elems s)" by (metis length_map)
  obtain msg where msg: "errorMessage H (elems s) (elems s ! i) = Inr msg"
    using getHandler_fst[OF i, of H] g r by (cases "errorMessage H (elems s) (elems s ! i)") simp_all
  have inv: "isInvalid s' = map_set i (invalid H (elems s) i) (isInvalid s)"
    using getHandler_isInvalid[OF i, of H] g msg by (simp add: invalid_def)
  have same: "list_all (\<lambda>j. invalid H (elems s') j = invalid H (elems s) j) is"
    using Cons.prems(1) same_frame_invalid[OF fr] by (simp add: list_all_iff)
  have "isInvalid (snd (forEach_getHandler H (i # is) s)) = isInvalid (snd (forEach_getHandler H is s'))"
    using g r by simp
  also have "\<dots> = foldl (\<lambda>m i. map_set i (invalid H (elems s') i) m) (isInvalid s') is"
    using Cons.IH[of s'] Cons.prems g r len by simp
  also have "\<dots> = foldl (\<lambda>m i. map_set i (invalid H (elems s) i) m) (isInvalid s') is"
    using same by (induction "is" arbitrary: s' rule: rev_induct) simp_all
  finally show ?case using inv by simp
qed

lemma map_fst_map_set_present:
  "map fst (map (\<lambda>(k', v'). if k' = k then (k', v) else (k', v')) m) = map fst m"
  by (induction m) (simp_all add: case_prod_beta')

lemma map_set_keys: "fst ` set (map_set k v m) = insert k (fst ` set m)"
proof (cases "k \<in> fst ` set m")
  case True
  have "set (map fst (map_set k v m)) = set (map fst m)"
    using True by (simp only: map_set_def if_True map_fst_map_set_present)
  then show ?thesis using True by (simp add: insert_absorb)
next
  case False
  then show ?thesis by (simp add: map_set_def)
qed

lemma map_set_present:
  "k \<in> fst ` set m \<Longrightarrow> map_set k v m = map (\<lambda>(k', x). (k', if k' = k then v else x)) m"
  by (simp add: map_set_def case_prod_beta' cong: map_cong)

lemma map_set_absent: "k \<notin> fst ` set m \<Longrightarrow> map_set k v m = m @ [(k, v)]"
  by (simp add: map_set_def)

lemma foldl_map_set:
  "distinct is \<Longrightarrow>
   foldl (\<lambda>m i. map_set i (v i) m) m0 is =
     map (\<lambda>(k, x). (k, if k \<in> set is then v k else x)) m0 @
     map (\<lambda>i. (i, v i)) (filter (\<lambda>i. i \<notin> fst ` set m0) is)"
proof (induction "is" arbitrary: m0)
  case Nil
  show ?case by simp
next
  case (Cons a "is")
  have d: "distinct is" "a \<notin> set is" using Cons.prems by simp_all
  show ?case
  proof (cases "a \<in> fst ` set m0")
    case True
    have k: "fst ` set (map_set a (v a) m0) = fst ` set m0"
      using True by (auto simp: map_set_keys)
    have "map (\<lambda>(k, x). (k, if k \<in> set is then v k else x)) (map_set a (v a) m0) =
          map (\<lambda>(k, x). (k, if k \<in> set (a # is) then v k else x)) m0"
      unfolding map_set_present[OF True] by (auto simp: case_prod_beta')
    then show ?thesis using Cons.IH[OF d(1), of "map_set a (v a) m0"] True k by simp
  next
    case False
    have k: "fst ` set (map_set a (v a) m0) = insert a (fst ` set m0)"
      by (rule map_set_keys)
    have 1: "map (\<lambda>(k, x). (k, if k \<in> set is then v k else x)) (map_set a (v a) m0) =
          map (\<lambda>(k, x). (k, if k \<in> set (a # is) then v k else x)) m0 @ [(a, v a)]"
      unfolding map_set_absent[OF False] using False by (auto simp: case_prod_beta' image_iff)
    have 2: "filter (\<lambda>i. i \<notin> insert a (fst ` set m0)) is = filter (\<lambda>i. i \<notin> fst ` set m0) is"
      using d(2) by (auto intro: filter_cong)
    show ?thesis using Cons.IH[OF d(1), of "map_set a (v a) m0"] False unfolding k 1 2 by simp
  qed
qed

lemma foldl_map_set_order:
  assumes "distinct is" "fst ` set m0 \<subseteq> set is"
  shows "foldl (\<lambda>m i. map_set i (v i) m) m0 is =
     map (\<lambda>i. (i, v i)) (map fst m0 @ filter (\<lambda>i. i \<notin> fst ` set m0) is)"
proof -
  have "map (\<lambda>(k, x). (k, if k \<in> set is then v k else x)) m0 = map (\<lambda>i. (i, v i)) (map fst m0)"
    using assms(2) by (auto simp: case_prod_beta' image_subset_iff)
  then show ?thesis using foldl_map_set[OF assms(1), of v m0] by simp
qed

lemma first_invalid_map: "first_invalid (map (\<lambda>i. (i, v i)) ks) = find v ks"
  by (induction ks) (simp_all add: first_invalid_def)

lemma getValues_step_frame: "getValues_step v (frame e) = getValues_step v e"
  by (simp add: getValues_step_def)

lemma foldl_getValues_frame:
  "foldl getValues_step v (map frame es) = foldl getValues_step v es"
  by (induction es arbitrary: v) (simp_all add: getValues_step_frame)

lemma getValues_frame: "getValues (map frame els) = getValues els"
proof -
  have "form_inputs (map frame els) = map frame (form_inputs els)"
    by (simp add: form_inputs_def filter_map comp_def)
  then show ?thesis by (simp add: getValues_def foldl_getValues_frame)
qed

lemma same_frame_getValues: "map frame els' = map frame els \<Longrightarrow> getValues els' = getValues els"
  using getValues_frame[of els'] getValues_frame[of els] by simp

lemma set_focus_order:
  "fst ` set (isInvalid s) \<subseteq> set (inputs s) \<Longrightarrow> set (focus_order s) = set (inputs s)"
  by (auto simp: focus_order_def)

lemma find_None_list_all: "(find P xs = None) = list_all (\<lambda>x. \<not> P x) xs"
  by (induction xs) simp_all

lemma list_all_set_eq: "set xs = set ys \<Longrightarrow> list_all P xs = list_all P ys"
  by (simp add: list_all_iff)

lemma click_result:
  assumes ok: "fst (forEach_getHandler H (inputs s) (s\<lparr>defaultPrevented := True\<rparr>)) = None"
    and keys: "fst ` set (isInvalid s) \<subseteq> set (inputs s)"
  shows "defaultPrevented (snd (click H s))"
    and "isInvalid (snd (click H s)) = map (\<lambda>i. (i, invalid H (elems s) i)) (focus_order s)"
    and "(fst (click H s) = ReturnedUndefined) = list_all (\<lambda>i. \<not> invalid H (elems s) i) (inputs s)"
    and "(case find (invalid H (elems s)) (focus_order s) of
            Some input \<Rightarrow>
              fst (click H s) = ReturnedFalse \<and> focused (snd (click H s)) = Some input \<and>
              requests (snd (click H s)) = requests s
          | None \<Rightarrow>
              fst (click H s) = ReturnedUndefined \<and> focused (snd (click H s)) = focused s \<and>
              requests (snd (click H s)) = requests s @ [fetch_request (getValues (elems s))])"
proof -
  define s0 where "s0 = s\<lparr>defaultPrevented := True\<rparr>"
  define s1 where "s1 = snd (forEach_getHandler H (inputs s) s0)"
  have in0: "inputs s0 = inputs s" by (simp add: s0_def inputs_def)
  have all: "list_all (\<lambda>i. i < length (elems s0)) (inputs s)"
    by (simp add: list_all_iff s0_def inputs_def)
  have fe: "forEach_getHandler H (inputs s) s0 = (None, s1)"
    using ok unfolding s0_def[symmetric] s1_def by (simp add: prod_eq_iff)
  have fr: "map frame (elems s1) = map frame (elems s)"
    using forEach_getHandler_frame[OF all, of H] by (simp add: s1_def s0_def)
  have o: "focused s1 = focused s" "defaultPrevented s1" "requests s1 = requests s"
    using forEach_getHandler_other_fields[OF all, of H] by (simp_all add: s1_def s0_def)
  have "isInvalid s1 = foldl (\<lambda>m i. map_set i (invalid H (elems s0) i) m) (isInvalid s0) (inputs s)"
    unfolding s1_def using forEach_getHandler_isInvalid[OF all] ok s0_def by simp
  then have rec: "isInvalid s1 = map (\<lambda>i. (i, invalid H (elems s) i)) (focus_order s)"
    using foldl_map_set_order[OF distinct_inputs keys, of "invalid H (elems s)"]
    by (simp add: s0_def focus_order_def)
  have fi: "first_invalid (isInvalid s1) = find (invalid H (elems s)) (focus_order s)"
    unfolding rec by (rule first_invalid_map)
  have gv: "getValues (elems s1) = getValues (elems s)" by (rule same_frame_getValues[OF fr])
  have cl: "click H s =
      (case find (invalid H (elems s)) (focus_order s) of
         Some input \<Rightarrow> (ReturnedFalse, s1\<lparr>focused := Some input\<rparr>)
       | None \<Rightarrow> (ReturnedUndefined, submitContact (s1\<lparr>console := console s1 @ [js ''OK!'']\<rparr>)))"
    unfolding click_def Let_def s0_def[symmetric] in0 fe by (simp add: fi)
  show "defaultPrevented (snd (click H s))"
    unfolding cl using o by (simp add: submitContact_def split: option.split)
  show "isInvalid (snd (click H s)) = map (\<lambda>i. (i, invalid H (elems s) i)) (focus_order s)"
    unfolding cl using rec by (simp add: submitContact_def split: option.split)
  have "(fst (click H s) = ReturnedUndefined) = (find (invalid H (elems s)) (focus_order s) = None)"
    unfolding cl by (simp split: option.split)
  also have "\<dots> = list_all (\<lambda>i. \<not> invalid H (elems s) i) (inputs s)"
    unfolding find_None_list_all by (rule list_all_set_eq[OF set_focus_order[OF keys]])
  finally show "(fst (click H s) = ReturnedUndefined) =
      list_all (\<lambda>i. \<not> invalid H (elems s) i) (inputs s)" .
  show "(case find (invalid H (elems s)) (focus_order s) of
            Some input \<Rightarrow>
              fst (click H s) = ReturnedFalse \<and> focused (snd (click H s)) = Some input \<and>
              requests (snd (click H s)) = requests s
          | None \<Rightarrow>
              fst (click H s) = ReturnedUndefined \<and> focused (snd (click H s)) = focused s \<and>
              requests (snd (click H s)) = requests s @ [fetch_request (getValues (elems s))])"
    unfolding cl using o gv by (simp add: submitContact_def split: option.split)
qed

text \<open>An evaluation of a control of the form keeps the validity record within the
  controls of the form: the click listener is only ever run on such a record.\<close>

lemma same_frame_inputs:
  assumes "map frame (elems s') = map frame (elems s)"
  shows "inputs s' = inputs s"
proof -
  have len: "length (elems s') = length (elems s)" using assms by (metis length_map)
  have "in_form (elems s' ! i) = in_form (elems s ! i)" if "i < length (elems s)" for i
    using same_frame_nth[OF assms that] by (metis frame_fields(1))
  then show ?thesis unfolding inputs_def len by (auto intro: filter_cong)
qed

lemma getHandler_keeps_record_in_form:
  assumes "i \<in> set (inputs s)" and "fst ` set (isInvalid s) \<subseteq> set (inputs s)"
  shows "fst ` set (isInvalid (snd (getHandler H i s))) \<subseteq> set (inputs (snd (getHandler H i s)))"
proof -
  have i: "i < length (elems s)" by (rule inputs_less[OF assms(1)])
  have "inputs (snd (getHandler H i s)) = inputs s"
    by (rule same_frame_inputs[OF getHandler_frame[OF i]])
  then show ?thesis
    unfolding getHandler_isInvalid[OF i] using assms
    by (auto simp: map_set_keys split: sum.split)
qed

section \<open>The required rule\<close>





section \<open>One evaluation\<close>

lemma errorMessage_Inr:
  "errorMessage H els input = Inr msg \<Longrightarrow>
   msg = result [validate_minLength H input, validate_maxLength H input,
           validate_required els input, pattern_message H input]"
  by (auto simp: errorMessage_def pattern_message_def split: sum.splits)

lemma content_mark [simp]: "content (mark c b e) = content e"
  by (simp add: mark_def)

lemma content_write: "content (write_content c x e) = (if c then x else content e)"
  by (simp add: write_content_def)

lemma map_of_map_set: "map_of (map_set k v m) k = Some v"
proof (cases "k \<in> fst ` set m")
  case True
  then show ?thesis unfolding map_set_present[OF True]
    by (induction m) (auto split: if_splits)
next
  case False
  then show ?thesis unfolding map_set_absent[OF False]
    by (simp add: map_of_eq_None_iff[symmetric] map_add_def)
qed

text \<open>
  C7, as amended. When the message of a control is not empty and its error element
  exists, \<open>getHandler\<close> returns normally and the content of the error element is the
  message: the non-empty messages of minLength, maxLength, required and pattern, in this
  order, joined with \<open><br>\<close>. Every rule that fails contributes, also for a control that
  fails required.
\<close>

theorem rendered_message:
  assumes "i < length (elems s)"
    and "errorMessage H (elems s) (elems s ! i) = Inr msg"
    and "msg \<noteq> []"
    and "getElementById (elems s) (getErrorId (elems s ! i)) = Some e"
  shows "msg = join br (filter (\<lambda>m. m \<noteq> [])
             [validate_minLength H (elems s ! i), validate_maxLength H (elems s ! i),
              validate_required (elems s) (elems s ! i), pattern_message H (elems s ! i)]) \<and>
         fst (getHandler H i s) = None \<and>
         content (elems (snd (getHandler H i s)) ! e) = msg"
proof -
  have e: "e < length (elems s)" by (rule getElementById_less[OF assms(4)])
  have "content (elems (snd (getHandler H i s)) ! e) = msg"
    unfolding getHandler_eq2[OF assms(1)] using assms e
    by (simp add: nth_mark_by content_write)
  moreover have "fst (getHandler H i s) = None"
    unfolding getHandler_fst[OF assms(1)] using assms by simp
  ultimately show ?thesis using errorMessage_Inr[OF assms(2)] by (simp add: result_def)
qed

lemma two_fields_message:
  "errorMessage sample_host (elems two_fields) (elems two_fields ! 0) = Inr three_messages"
  by code_simp

lemma two_fields_error: "getElementById (elems two_fields) (getErrorId (elems two_fields ! 0)) = Some 2"
  by code_simp

lemma three_messages_ne: "three_messages \<noteq> []"
  by (simp add: three_messages_def js_def)

lemma two_fields_length: "0 < length (elems two_fields)"
  by (simp add: two_fields_def page_of_def)

theorem rendered_message_witness:
  "0 < length (elems two_fields) \<and>
   errorMessage sample_host (elems two_fields) (elems two_fields ! 0) = Inr three_messages \<and>
   three_messages \<noteq> [] \<and>
   getElementById (elems two_fields) (getErrorId (elems two_fields ! 0)) = Some 2 \<and>
   fst (getHandler sample_host 0 two_fields) = None \<and>
   content (elems (snd (getHandler sample_host 0 two_fields)) ! 2) = three_messages"
  using rendered_message[OF two_fields_length two_fields_message three_messages_ne two_fields_error]
    two_fields_length two_fields_message three_messages_ne two_fields_error
  by simp

text \<open>
  C7 as stated fails: the first field of the page of two required fields is empty, has
  \<open>minlength="3"\<close> and a pattern, and fails required; what is rendered is not the required
  message alone but the three messages of minLength, required and pattern.
\<close>

theorem required_does_not_suppress:
  "required (elems two_fields ! 0) \<and> trim (evalue (elems two_fields ! 0)) = [] \<and>
   validate_required (elems two_fields) (elems two_fields ! 0) = msg_required \<and>
   content (elems (snd (getHandler sample_host 0 two_fields)) ! 2) =
     js ''3'' @ msg_minLength @ br @ msg_required @ br @ msg_pattern \<and>
   content (elems (snd (getHandler sample_host 0 two_fields)) ! 2) \<noteq> msg_required"
  by code_simp

text \<open>
  What one evaluation records: the message of a control is made of the messages of all
  four rules, in their order, and after the evaluation the entry of the control in the
  validity record is \<open>true\<close> iff that message is not empty. When it is empty the evaluation
  returns normally and clears the control's error element, if there is one.
\<close>

lemma own_message_decides:
  assumes "i < length (elems s)"
    and "errorMessage H (elems s) (elems s ! i) = Inr msg"
  shows "msg = result [validate_minLength H (elems s ! i), validate_maxLength H (elems s ! i),
                 validate_required (elems s) (elems s ! i), pattern_message H (elems s ! i)] \<and>
         map_of (isInvalid (snd (getHandler H i s))) i = Some (msg \<noteq> []) \<and>
         (msg = [] \<longrightarrow>
            fst (getHandler H i s) = None \<and>
            (case getElementById (elems s) (getErrorId (elems s ! i)) of
               None \<Rightarrow> True
             | Some e \<Rightarrow> content (elems (snd (getHandler H i s)) ! e) = []))"
proof -
  have 1: "map_of (isInvalid (snd (getHandler H i s))) i = Some (msg \<noteq> [])"
    unfolding getHandler_isInvalid[OF assms(1)] using assms(2) by (simp add: map_of_map_set)
  have 2: "fst (getHandler H i s) = None" if "msg = []"
    unfolding getHandler_fst[OF assms(1)] using assms(2) that by simp
  have 3: "content (elems (snd (getHandler H i s)) ! e) = []"
    if "msg = []" "getElementById (elems s) (getErrorId (elems s ! i)) = Some e" for e
  proof -
    have e: "e < length (elems s)" by (rule getElementById_less[OF that(2)])
    show ?thesis
      unfolding getHandler_eq2[OF assms(1)] using assms(2) that e
      by (simp add: nth_reset_by content_write)
  qed
  show ?thesis using errorMessage_Inr[OF assms(2)] 1 2 3 by (simp split: option.split)
qed

text \<open>
  C9, evaluated on a group of two radio buttons that share an error element, none checked,
  of which only the first is required. The first fails required and the message of the
  second is empty. At a click the second is recorded valid, and its evaluation resets the
  group: after the click the first is recorded invalid and is given focus, the shared
  error element is empty and no element carries the error class.
\<close>

theorem radio_group_after_click:
  "is_group_radio (ename (elems radio_page ! 0)) (elems radio_page ! 1) \<and>
   errorMessage sample_host (elems radio_page) (elems radio_page ! 0) = Inr msg_required \<and>
   errorMessage sample_host (elems radio_page) (elems radio_page ! 1) = Inr [] \<and>
   fst (click sample_host radio_page) = ReturnedFalse \<and>
   focused (snd (click sample_host radio_page)) = Some 0 \<and>
   isInvalid (snd (click sample_host radio_page)) = [(0, True), (1, False)] \<and>
   map content (elems (snd (click sample_host radio_page))) = [[], [], []] \<and>
   map is_error (elems (snd (click sample_host radio_page))) = [False, False, False]"
  by code_simp

text \<open>
  C8. Evaluating a control again, with nothing changed in between, ends the same way (the
  same return or the same exception) and leaves the page as the first evaluation left it:
  the same entry in the validity record, the same content of the error element, the same
  classes; and the control's message is the same.
\<close>

theorem evaluate_idempotent:
  assumes "i < length (elems s)" and "getHandler H i s = (r, s')"
  shows "getHandler H i s' = (r, s') \<and>
         errorMessage H (elems s') (elems s' ! i) = errorMessage H (elems s) (elems s ! i)"
proof -
  have "getHandler H i (snd (getHandler H i s)) = getHandler H i s"
    by (rule getHandler_again[OF assms(1)])
  then have 1: "getHandler H i s' = (r, s')" unfolding assms(2) by simp
  have "map frame (elems (snd (getHandler H i s))) = map frame (elems s)"
    by (rule getHandler_frame[OF assms(1)])
  then have "map frame (elems s') = map frame (elems s)" unfolding assms(2) by simp
  then have 2: "errorMessage H (elems s') (elems s' ! i) = errorMessage H (elems s) (elems s ! i)"
    by (rule same_frame_errorMessage[OF _ assms(1)])
  show ?thesis using 1 2 by (rule conjI)
qed

theorem evaluate_idempotent_witness:
  "0 < length (elems two_fields) \<and>
   getHandler sample_host 0 (snd (getHandler sample_host 0 two_fields)) =
     (fst (getHandler sample_host 0 two_fields), snd (getHandler sample_host 0 two_fields))"
  using evaluate_idempotent[OF two_fields_length,
      of sample_host "fst (getHandler sample_host 0 two_fields)"
        "snd (getHandler sample_host 0 two_fields)"] two_fields_length
  by simp

section \<open>Submission\<close>

text \<open>
  C1, as amended. Let no evaluation raise, and let the validity record hold controls of
  the form only. A click prevents the default action and evaluates every control; after
  it the record holds, for every control, whether its message is not empty, in the order
  \<open>focus_order\<close>: the controls already in the record in the order of their first
  evaluation, then the others in enumeration order (for the empty record, that is the
  enumeration order). The listener returns nothing and hands the form to
  \<open>submitContact\<close>, which issues one request, iff every control is valid. Otherwise it
  returns \<open>false\<close>, issues no request, and the first invalid control in \<open>focus_order\<close>
  is given focus.
\<close>

theorem click_gate:
  assumes "fst (forEach_getHandler H (inputs s) (s\<lparr>defaultPrevented := True\<rparr>)) = None"
    and "fst ` set (isInvalid s) \<subseteq> set (inputs s)"
  shows "defaultPrevented (snd (click H s)) \<and>
         isInvalid (snd (click H s)) = map (\<lambda>i. (i, invalid H (elems s) i)) (focus_order s) \<and>
         (fst (click H s) = ReturnedUndefined) =
           list_all (\<lambda>i. \<not> invalid H (elems s) i) (inputs s) \<and>
         (case find (invalid H (elems s)) (focus_order s) of
            Some input \<Rightarrow>
              fst (click H s) = ReturnedFalse \<and> focused (snd (click H s)) = Some input \<and>
              requests (snd (click H s)) = requests s
          | None \<Rightarrow>
              fst (click H s) = ReturnedUndefined \<and> focused (snd (click H s)) = focused s \<and>
              requests (snd (click H s)) = requests s @ [fetch_request (getValues (elems s))]) \<and>
         (isInvalid s = [] \<longrightarrow> focus_order s = inputs s)"
  using click_result[OF assms] by (simp add: focus_order_def)

lemma two_fields_no_raise:
  "fst (forEach_getHandler sample_host (inputs two_fields) (two_fields\<lparr>defaultPrevented := True\<rparr>)) = None"
  by code_simp

lemma two_fields_keys: "fst ` set (isInvalid two_fields) \<subseteq> set (inputs two_fields)"
  by (simp add: two_fields_def page_of_def)

lemma two_fields_first: "find (invalid sample_host (elems two_fields)) (focus_order two_fields) = Some 0"
  by code_simp

lemma filled_fields_no_raise:
  "fst (forEach_getHandler sample_host (inputs filled_fields) (filled_fields\<lparr>defaultPrevented := True\<rparr>)) = None"
  by code_simp

lemma filled_fields_keys: "fst ` set (isInvalid filled_fields) \<subseteq> set (inputs filled_fields)"
  by (simp add: filled_fields_def page_of_def)

lemma filled_fields_first:
  "find (invalid sample_host (elems filled_fields)) (focus_order filled_fields) = None"
  by code_simp

lemma fields_requests: "requests two_fields = []" "requests filled_fields = []"
  by (simp_all add: two_fields_def filled_fields_def page_of_def)

theorem click_gate_witness:
  "fst (forEach_getHandler sample_host (inputs two_fields) (two_fields\<lparr>defaultPrevented := True\<rparr>)) = None \<and>
   fst ` set (isInvalid two_fields) \<subseteq> set (inputs two_fields) \<and>
   fst (click sample_host two_fields) = ReturnedFalse \<and>
   focused (snd (click sample_host two_fields)) = Some 0 \<and>
   requests (snd (click sample_host two_fields)) = [] \<and>
   fst (forEach_getHandler sample_host (inputs filled_fields) (filled_fields\<lparr>defaultPrevented := True\<rparr>)) = None \<and>
   fst ` set (isInvalid filled_fields) \<subseteq> set (inputs filled_fields) \<and>
   fst (click sample_host filled_fields) = ReturnedUndefined \<and>
   requests (snd (click sample_host filled_fields)) = [fetch_request (getValues (elems filled_fields))]"
  using click_gate[OF two_fields_no_raise two_fields_keys]
    click_gate[OF filled_fields_no_raise filled_fields_keys]
    two_fields_no_raise two_fields_keys filled_fields_no_raise filled_fields_keys
  by (simp add: two_fields_first filled_fields_first fields_requests)

text \<open>
  C1 as stated fails: on the page of two required empty fields, an input event on the
  second field puts it first in the record; at the click that follows both fields are
  invalid and the second one is given focus, not the first in enumeration order.
\<close>

theorem focus_follows_first_evaluation:
  "inputs two_fields = [0, 1] \<and>
   invalid sample_host (elems two_fields) 0 \<and>
   fst (getHandler sample_host 1 two_fields) = None \<and>
   fst (click sample_host (snd (getHandler sample_host 1 two_fields))) = ReturnedFalse \<and>
   focused (snd (click sample_host (snd (getHandler sample_host 1 two_fields)))) = Some 1"
  by code_simp

end
